(* ===== verification/Prelude.thy ===== *)
theory Prelude
  imports Main "HOL-Library.Multiset"
begin

text \<open>
  Shared vocabulary of the Spider Solitaire development: the type of piles
  (lists of card ids, bottom first, as the arrays \<open>ssObj.piles[i]\<close> of
  \<open>src/V2/ssjs/spider-solitaire.js\<close>), the JavaScript array primitives the
  engine uses on them (\<open>push\<close>, \<open>pop\<close>, \<open>splice(pos, len - pos)\<close>,
  \<open>concat\<close>), the error type of the engine, and the list and multiset lemmas
  the component theories share.  The collection \<open>pile_simps\<close> gathers the
  characteristic equations of the primitives; the component proofs use it
  with \<open>simp add: pile_simps\<close>.
\<close>

named_theorems pile_simps "characteristic equations of the pile primitives"

text \<open>Ranges of pile indices such as \<open>[13..<23]\<close> stay intervals in proofs;
  concrete evaluation adds \<open>upt_rec_numeral\<close> back.\<close>

declare upt_rec_numeral [simp del]

type_synonym pile = "nat list"
type_synonym piles = "nat list list"

text \<open>
  Errors of the engine.  \<open>EmptySpaces\<close> and \<open>NoCardsLeft\<close> are the two
  alerts of \<open>deal\<close>; \<open>NoMoreMoves\<close> the alert of \<open>undo\<close> on an empty log;
  \<open>TargetNotFound\<close> the silent early return of \<open>moveCard\<close> when the drop
  target resolves to pile \<open>-1\<close>; \<open>TypeError\<close> a JavaScript exception
  (a method called on \<open>undefined\<close>: popping or reading the top of an empty
  pile, writing to a pile index that does not exist).
\<close>

datatype error = EmptySpaces | NoCardsLeft | NoMoreMoves | TargetNotFound | TypeError

subsection \<open>Array primitives on piles\<close>

text \<open>\<open>piles[i].push(x)\<close>.\<close>

definition push_pile :: "piles \<Rightarrow> nat \<Rightarrow> nat \<Rightarrow> piles" where
  "push_pile ps i x = ps[i := ps ! i @ [x]]"

text \<open>\<open>piles[i].pop()\<close>: the top card and the shortened pile.  On an empty
  pile JavaScript returns \<open>undefined\<close>, and the next access to a field of the
  card throws; the model returns the \<open>TypeError\<close>.\<close>

definition pop_pile :: "piles \<Rightarrow> nat \<Rightarrow> error + (nat \<times> piles)" where
  "pop_pile ps i =
     (if ps ! i = [] then Inl TypeError
      else Inr (last (ps ! i), ps[i := butlast (ps ! i)]))"

text \<open>\<open>hand = piles[i].splice(pos, piles[i].length - pos)\<close>: the cards from
  position \<open>pos\<close> to the top, and the pile without them.\<close>

definition splice_from :: "piles \<Rightarrow> nat \<Rightarrow> nat \<Rightarrow> pile \<times> piles" where
  "splice_from ps i pos = (drop pos (ps ! i), ps[i := take pos (ps ! i)])"

text \<open>\<open>piles[i].splice(start, count)\<close> with the ECMAScript rules: a negative
  \<open>start\<close> counts from the end (and stops at 0), a start beyond the end is
  the end, and the count is cut to what the pile holds.  \<open>splice_from\<close> is
  the case the engine normally uses (lemma \<open>js_splice_to_end\<close>).\<close>

definition js_splice :: "piles \<Rightarrow> nat \<Rightarrow> int \<Rightarrow> int \<Rightarrow> pile \<times> piles" where
  "js_splice ps i start cnt =
     (let p = ps ! i; len = int (length p);
          st = (if start < 0 then max (len + start) 0 else min start len);
          n = max 0 (min cnt (len - st))
      in (take (nat n) (drop (nat st) p), ps[i := take (nat st) p @ drop (nat (st + n)) p]))"

text \<open>\<open>piles[t] = piles[t].concat(hand)\<close>.\<close>

definition concat_onto :: "piles \<Rightarrow> nat \<Rightarrow> pile \<Rightarrow> piles" where
  "concat_onto ps t hand = ps[t := ps ! t @ hand]"

text \<open>The top card \<open>piles[i][piles[i].length - 1]\<close>, \<open>None\<close> for
  \<open>undefined\<close>.\<close>

definition top_of :: "pile \<Rightarrow> nat option" where
  "top_of p = (if p = [] then None else Some (last p))"

subsection \<open>Lemmas on the primitives\<close>

lemma nat_numeral_plus_int [simp]: "nat (numeral k + int n) = numeral k + n"
  by (metis nat_int of_nat_add of_nat_numeral)

lemma length_push_pile [pile_simps]: "length (push_pile ps i x) = length ps"
  by (simp add: push_pile_def)

lemma length_concat_onto [pile_simps]: "length (concat_onto ps t h) = length ps"
  by (simp add: concat_onto_def)

lemma nth_push_pile [pile_simps]:
  "i < length ps \<Longrightarrow> push_pile ps i x ! j = (if j = i then ps ! i @ [x] else ps ! j)"
  by (simp add: push_pile_def)

lemma nth_concat_onto [pile_simps]:
  "t < length ps \<Longrightarrow> concat_onto ps t h ! j = (if j = t then ps ! t @ h else ps ! j)"
  by (simp add: concat_onto_def)

lemma splice_from_simps [pile_simps]:
  "fst (splice_from ps i pos) = drop pos (ps ! i)"
  "length (snd (splice_from ps i pos)) = length ps"
  "i < length ps \<Longrightarrow> snd (splice_from ps i pos) ! j = (if j = i then take pos (ps ! i) else ps ! j)"
  by (simp_all add: splice_from_def)

lemma top_of_append [pile_simps]: "top_of (p @ [x]) = Some x"
  by (simp add: top_of_def)

lemma top_of_append_nonempty [pile_simps]: "h \<noteq> [] \<Longrightarrow> top_of (p @ h) = Some (last h)"
  by (simp add: top_of_def)

lemma js_splice_to_end [pile_simps]:
  assumes "0 \<le> pos" "pos \<le> int (length (ps ! i))"
  shows "js_splice ps i pos (int (length (ps ! i)) - pos) = splice_from ps i (nat pos)"
  using assms by (simp add: js_splice_def splice_from_def Let_def)

subsection \<open>Card conservation under updates of one pile\<close>

text \<open>
  Every move of the engine replaces one or two piles.  The multiset of all
  card ids changes by what the new pile adds and the old one held; the
  lemma below is what every conservation proof of the development uses.
\<close>

lemma mset_concat_update:
  assumes "i < length ps"
  shows "mset (concat (ps[i := p])) + mset (ps ! i) = mset (concat ps) + mset p"
proof -
  have ps: "ps = take i ps @ ps ! i # drop (Suc i) ps"
    using assms by (simp add: id_take_nth_drop)
  have "ps[i := p] = take i ps @ p # drop (Suc i) ps"
    using assms by (simp add: upd_conv_take_nth_drop)
  then have "mset (concat (ps[i := p])) = mset (concat (take i ps)) + mset p + mset (concat (drop (Suc i) ps))"
    by simp
  moreover have "mset (concat ps) = mset (concat (take i ps)) + mset (ps ! i) + mset (concat (drop (Suc i) ps))"
    by (subst ps) simp
  ultimately show ?thesis
    by (simp add: ac_simps)
qed

lemma length_concat_update:
  "i < length ps \<Longrightarrow>
   length (concat (ps[i := p])) + length (ps ! i) = length (concat ps) + length p"
  using arg_cong [OF mset_concat_update [of i ps p], of size] by simp

lemma mset_concat_push [pile_simps]:
  "i < length ps \<Longrightarrow> mset (concat (push_pile ps i x)) = add_mset x (mset (concat ps))"
  using mset_concat_update [of i ps "ps ! i @ [x]"] by (simp add: push_pile_def)

lemma mset_concat_concat_onto [pile_simps]:
  "t < length ps \<Longrightarrow> mset (concat (concat_onto ps t h)) = mset (concat ps) + mset h"
  using mset_concat_update [of t ps "ps ! t @ h"] by (simp add: concat_onto_def ac_simps)

lemma mset_concat_splice_from [pile_simps]:
  assumes "i < length ps"
  shows "mset (concat (snd (splice_from ps i pos))) + mset (fst (splice_from ps i pos)) =
         mset (concat ps)"
proof -
  have split: "mset (ps ! i) = mset (take pos (ps ! i)) + mset (drop pos (ps ! i))"
    by (simp flip: mset_append)
  have "mset (concat (ps[i := take pos (ps ! i)])) + mset (ps ! i) =
        mset (concat ps) + mset (take pos (ps ! i))"
    by (rule mset_concat_update [OF assms])
  then show ?thesis
    unfolding splice_from_def split by (simp add: ac_simps)
qed

lemma pop_pile_Inr:
  "pop_pile ps i = Inr (x, ps') \<longleftrightarrow> ps ! i \<noteq> [] \<and> x = last (ps ! i) \<and> ps' = ps[i := butlast (ps ! i)]"
  by (auto simp add: pop_pile_def)

lemma mset_concat_pop [pile_simps]:
  assumes "i < length ps" "pop_pile ps i = Inr (x, ps')"
  shows "add_mset x (mset (concat ps')) = mset (concat ps)"
proof -
  from assms(2) have ne: "ps ! i \<noteq> []" and x: "x = last (ps ! i)"
    and ps': "ps' = ps[i := butlast (ps ! i)]"
    by (simp_all add: pop_pile_Inr)
  have "mset (ps ! i) = mset (butlast (ps ! i) @ [x])"
    using ne x by simp
  then have "mset (ps ! i) = add_mset x (mset (butlast (ps ! i)))"
    by simp
  with mset_concat_update [OF assms(1), of "butlast (ps ! i)"] ps' show ?thesis
    by simp
qed

subsection \<open>Distinct ids\<close>

text \<open>A partition of the ids \<open>0..<n\<close> over the piles has no duplicate.\<close>

lemma mset_eq_upt_distinct:
  "mset xs = mset [0..<n] \<Longrightarrow> distinct xs"
  by (metis distinct_upt mset_eq_imp_distinct_iff)

lemma distinct_concat_pile:
  "distinct (concat ps) \<Longrightarrow> i < length ps \<Longrightarrow> distinct (ps ! i)"
  by (metis distinct_concat_iff nth_mem)

lemma distinct_concat_disjoint:
  "distinct (concat ps) \<Longrightarrow> i < length ps \<Longrightarrow> j < length ps \<Longrightarrow> i \<noteq> j \<Longrightarrow>
   x \<in> set (ps ! i) \<Longrightarrow> x \<notin> set (ps ! j)"
proof (induction ps arbitrary: i j)
  case Nil
  then show ?case by simp
next
  case (Cons p ps)
  have d: "distinct (concat ps)" and disj: "\<And>y. y \<in> set p \<Longrightarrow> y \<notin> set (concat ps)"
    using Cons.prems(1) by auto
  have sub: "\<And>k y. k < length ps \<Longrightarrow> y \<in> set (ps ! k) \<Longrightarrow> y \<in> set (concat ps)"
    by (metis UN_I nth_mem set_concat)
  show ?case
  proof (cases i)
    case 0
    then obtain j' where "j = Suc j'" "j' < length ps"
      using Cons.prems(3,4) by (cases j) auto
    then show ?thesis
      using 0 Cons.prems(5) disj sub by fastforce
  next
    case (Suc i')
    show ?thesis
    proof (cases j)
      case 0
      have "x \<in> set (ps ! i')" "i' < length ps"
        using Suc Cons.prems(2,5) by simp_all
      then show ?thesis
        using 0 disj sub by fastforce
    next
      case (Suc j')
      with \<open>i = Suc i'\<close> Cons.prems d show ?thesis
        using Cons.IH [of i' j'] by simp
    qed
  qed
qed

lemma length_filter_mono:
  "\<forall>x\<in>set xs. P x \<longrightarrow> Q x \<Longrightarrow> length (filter P xs) \<le> length (filter Q xs)"
  by (induction xs) auto

lemma length_filter_strict:
  assumes "\<forall>x\<in>set xs. P x \<longrightarrow> Q x" "x \<in> set xs" "Q x" "\<not> P x"
  shows "length (filter P xs) < length (filter Q xs)"
  using assms
proof (induction xs)
  case Nil
  then show ?case by simp
next
  case (Cons y ys)
  show ?case
  proof (cases "y = x")
    case True
    then have "length (filter P ys) \<le> length (filter Q ys)"
      using Cons.prems(1) length_filter_mono [of ys P Q] by simp
    then show ?thesis using True Cons.prems(3,4) by simp
  next
    case False
    then have "length (filter P ys) < length (filter Q ys)"
      using Cons by simp
    then show ?thesis using Cons.prems(1) by auto
  qed
qed

end
