(* ===== verification/Cards.thy ===== *)
theory Cards
  imports Prelude
begin

text \<open>
  The card model of \<open>prepareCards\<close> (new-game branch) and \<open>countSuits\<close>
  of \<open>src/V2/ssjs/spider-solitaire.js\<close>: suits, the card object, the
  104 cards of two packs built for a difficulty level, the 8000-swap shuffle,
  the assignment of ids by final position, and the count of distinct suits.
  The random numbers the code draws are inputs of the model (\<open>draws\<close>).
  Lemmas: the shuffle permutes the cards; the pack has two copies of every
  rank in every suit slot; the level chosen is the number of distinct suits
  of the pack; \<open>countSuits\<close> computes the cardinality of the suit set.
\<close>

subsection \<open>Cards\<close>

text \<open>The suits \<open>'c'\<close>, \<open>'d'\<close>, \<open>'h'\<close>, \<open>'s'\<close> of the source.\<close>

datatype suit = Suit_c | Suit_d | Suit_h | Suit_s

text \<open>The card object \<open>{suit, value, hierarchy, facingUp, canDrag}\<close> with the
  \<open>id\<close> assigned after the shuffle.  \<open>canDrag\<close> is recomputed from the piles
  by \<open>setDraggableCards\<close> after every command; it is modelled as the
  function \<open>can_drag\<close> of theory \<open>Game\<close>, not as a stored flag.\<close>

record card =
  suit :: suit
  card_value :: string
  hierarchy :: nat
  facingUp :: bool
  card_id :: nat

text \<open>\<open>values = ['A', '2', ..., '9', '10', 'J', 'Q', 'K']\<close>: the one-letter
  names of the ranks two to nine are the letters of \<open>''23456789''\<close>.\<close>

definition card_values :: "string list" where
  "card_values = ''A'' # map (\<lambda>d. [d]) ''23456789'' @ [''10'', ''J'', ''Q'', ''K'']"

text \<open>The random draws of a new game: \<open>Math.random() < 0.5\<close> for the red and
  the black suit of a two-suit game, \<open>Math.floor(Math.random() * 4)\<close> for
  the suit of a one-suit game, and the pair
  \<open>(Math.floor(Math.random() * 1000), Math.floor(Math.random() * 1000))\<close>
  of each of the 8000 shuffle steps, as a function of the step number.\<close>

record draws =
  red_low :: bool
  black_low :: bool
  one_suit :: nat
  swap_draw :: "nat \<Rightarrow> nat \<times> nat"

text \<open>The four suit slots of the pack for \<open>howManySuits\<close>.  The one-suit
  index is \<open>floor(random * 4)\<close>, below 4; the model reads it modulo 4.\<close>

definition choose_suits :: "nat \<Rightarrow> draws \<Rightarrow> suit list" where
  "choose_suits n r =
     (if n = 2 then
        (let red = (if red_low r then Suit_d else Suit_h);
             black = (if black_low r then Suit_c else Suit_s)
         in [black, red, red, black])
      else if n = 1 then replicate 4 ([Suit_c, Suit_d, Suit_h, Suit_s] ! (one_suit r mod 4))
      else [Suit_c, Suit_d, Suit_h, Suit_s])"

text \<open>The three nested loops \<open>pack < 2\<close>, \<open>csuit < 4\<close>, \<open>card < 13\<close>
  that push the new cards, face down.  The \<open>id\<close> is not set yet (0 here).\<close>

definition new_card :: "suit list \<Rightarrow> nat \<Rightarrow> nat \<Rightarrow> card" where
  "new_card suits csuit c =
     \<lparr>suit = suits ! csuit, card_value = card_values ! c, hierarchy = c,
      facingUp = False, card_id = 0\<rparr>"

definition create_cards :: "suit list \<Rightarrow> card list" where
  "create_cards suits =
     concat (map (\<lambda>pack. concat (map (\<lambda>csuit. map (new_card suits csuit) [0..<13]) [0..<4]))
       [0..<2::nat])"

text \<open>One shuffle step: \<open>card1 = r1 % 104; card2 = r2 % 104\<close> and the
  swap through \<open>tempCard\<close>.\<close>

definition swap_cards :: "'a list \<Rightarrow> nat \<Rightarrow> nat \<Rightarrow> 'a list" where
  "swap_cards xs i j = xs[i := xs ! j, j := xs ! i]"

definition shuffle_step :: "draws \<Rightarrow> nat \<Rightarrow> 'a list \<Rightarrow> 'a list" where
  "shuffle_step r k xs = swap_cards xs (fst (swap_draw r k) mod 104) (snd (swap_draw r k) mod 104)"

text \<open>\<open>for (shuffle = 0; shuffle < 8000; shuffle++)\<close>.\<close>

definition shuffle :: "draws \<Rightarrow> 'a list \<Rightarrow> 'a list" where
  "shuffle r xs = fold (shuffle_step r) [0..<8000] xs"

text \<open>\<open>for (id = 0; id < pile.length; id++) pile[id].id = id\<close>.\<close>

definition assign_ids :: "card list \<Rightarrow> card list" where
  "assign_ids xs = map (\<lambda>(c, i). c\<lparr>card_id := i\<rparr>) (zip xs [0..<length xs])"

subsection \<open>Counting suits\<close>

text \<open>\<open>countSuits\<close>: the string \<open>tmpSuits\<close> collects each suit the first
  time it is met; its length is returned.\<close>

fun collect_suits :: "suit list \<Rightarrow> card list \<Rightarrow> suit list" where
  "collect_suits acc [] = acc"
| "collect_suits acc (c # cs) =
     collect_suits (if suit c \<in> set acc then acc else acc @ [suit c]) cs"

definition count_suits :: "card list \<Rightarrow> nat" where
  "count_suits dk = length (collect_suits [] dk)"

text \<open>The well-formedness of one card: its face value is the name of its
  rank.  Every card built by \<open>create_cards\<close> has it; a deck restored from a
  saved string need not.\<close>

definition wf_card :: "card \<Rightarrow> bool" where
  "wf_card c \<longleftrightarrow> hierarchy c < 13 \<and> card_value c = card_values ! hierarchy c"

subsection \<open>Lemmas\<close>

lemma length_create_cards: "length (create_cards s) = 104"
  by (simp add: create_cards_def length_concat comp_def sum_list_triv)

lemma mset_swap_cards:
  "i < length xs \<Longrightarrow> j < length xs \<Longrightarrow> mset (swap_cards xs i j) = mset xs"
  by (simp add: swap_cards_def mset_swap)

lemma length_swap_cards [simp]: "length (swap_cards xs i j) = length xs"
  by (simp add: swap_cards_def)

lemma shuffle_step_perm:
  "length xs = 104 \<Longrightarrow> mset (shuffle_step r k xs) = mset xs \<and> length (shuffle_step r k xs) = 104"
  by (simp add: shuffle_step_def mset_swap_cards)

lemma fold_shuffle_perm:
  "length xs = 104 \<Longrightarrow> mset (fold (shuffle_step r) ks xs) = mset xs \<and> length (fold (shuffle_step r) ks xs) = 104"
  by (induction ks arbitrary: xs) (simp_all add: shuffle_step_perm)

text \<open>C30: the 8000-step shuffle of \<open>prepareCards\<close> permutes the 104 new cards:
  none is lost or duplicated, whatever the random draws.\<close>

theorem mset_shuffle_create_cards: "mset (shuffle r (create_cards s)) = mset (create_cards s)"
  using fold_shuffle_perm [OF length_create_cards] by (simp add: shuffle_def)

lemma collect_suits_set:
  "distinct acc \<Longrightarrow> distinct (collect_suits acc cs) \<and> set (collect_suits acc cs) = set acc \<union> suit ` set cs"
  by (induction acc cs rule: collect_suits.induct) auto

lemma count_suits_card: "count_suits dk = card (suit ` set dk)"
  using collect_suits_set [of "[]" dk] by (metis count_suits_def distinct.simps(1) distinct_card empty_set sup_bot_left)

lemma set_create_cards:
  "set (create_cards s) = (\<lambda>(cs, c). new_card s cs c) ` ({0..<4} \<times> {0..<13})"
  by (auto simp: create_cards_def)

lemma suit_set_create_cards:
  assumes "length s = 4"
  shows "suit ` set (create_cards s) = set s"
proof
  show "suit ` set (create_cards s) \<subseteq> set s"
    using assms by (auto simp: set_create_cards new_card_def)
next
  show "set s \<subseteq> suit ` set (create_cards s)"
  proof
    fix x assume "x \<in> set s"
    then obtain k where k: "k < 4" "x = s ! k"
      using assms by (auto simp: in_set_conv_nth)
    have "new_card s k 0 \<in> set (create_cards s)"
      unfolding set_create_cards using k(1) by (intro rev_image_eqI [where x = "(k, 0)"]) simp_all
    moreover have "suit (new_card s k 0) = x"
      using k by (simp add: new_card_def)
    ultimately show "x \<in> suit ` set (create_cards s)"
      by (metis image_eqI)
  qed
qed

lemma length_choose_suits: "length (choose_suits n r) = 4"
  by (simp add: choose_suits_def Let_def)

text \<open>C29: a new pack built for level \<open>n\<close> has exactly \<open>n\<close> distinct suits for
  \<open>n = 1\<close> and \<open>n = 2\<close>, and 4 otherwise, whatever the random choice of
  suits; this is also what \<open>countSuits\<close> recomputes for a restored deck.\<close>

theorem count_suits_new_pack:
  "count_suits (create_cards (choose_suits n r)) = (if n = 1 \<or> n = 2 then n else 4)"
proof -
  have "count_suits (create_cards (choose_suits n r)) = card (set (choose_suits n r))"
    by (simp add: count_suits_card suit_set_create_cards length_choose_suits)
  also have "\<dots> = (if n = 1 \<or> n = 2 then n else 4)"
    by (simp add: choose_suits_def Let_def card_insert_if)
  finally show ?thesis .
qed

lemma create_cards_wf:
  "c \<in> set (create_cards s) \<Longrightarrow> wf_card c \<and> \<not> facingUp c"
  by (auto simp: set_create_cards new_card_def wf_card_def)

lemma length_shuffle_create_cards: "length (shuffle r (create_cards s)) = 104"
  using fold_shuffle_perm [OF length_create_cards] by (simp add: shuffle_def)

lemma assign_ids_simps:
  "length (assign_ids xs) = length xs"
  "i < length xs \<Longrightarrow> assign_ids xs ! i = (xs ! i)\<lparr>card_id := i\<rparr>"
  by (simp_all add: assign_ids_def)

lemma set_shuffle_create_cards: "set (shuffle r (create_cards s)) = set (create_cards s)"
  using fold_shuffle_perm [OF length_create_cards] by (metis mset_eq_setD shuffle_def)

lemma wf_card_update [simp]:
  "wf_card (c\<lparr>facingUp := b\<rparr>) = wf_card c" "wf_card (c\<lparr>card_id := k\<rparr>) = wf_card c"
  by (simp_all add: wf_card_def)

end
