(* ===== verification/Game.thy ===== *)
theory Game
  imports Cards
begin

text \<open>
  The state of the \<open>SpiderSolitaire\<close> object and the helpers every command
  shares: the move records of \<open>ssObj.moves\<close>, the high-score entries,
  the game record (\<open>ssObj.deck\<close>, \<open>ssObj.piles\<close>, \<open>ssObj.moves\<close>,
  \<open>ssObj.score\<close>, \<open>ssObj.playing\<close>, the levels, the name, the
  statistics), \<open>recordMove\<close>,
  \<open>getPileContainingCard\<close>, \<open>getPileDroppedOn\<close>, the turning of the card
  a move uncovers, and \<open>setDraggableCards\<close>.

  Card objects are shared between \<open>ssObj.deck\<close> and the piles in the source
  (the piles hold references to the deck's objects).  The model keeps that
  sharing explicit: the deck is a store indexed by card id, the piles hold
  ids, and turning a card over updates the store.  The move log is kept
  newest first: \<open>moves.push(m)\<close> is \<open>m # ms\<close> and \<open>moves.pop()\<close> takes
  the head.
\<close>

subsection \<open>Move records\<close>

text \<open>The JavaScript record \<open>{cardId, sourcePile, targetPile, resultedInTurn}\<close>
  is a tagged union keyed on \<open>cardId\<close>: \<open>-1\<close> a deal from reserve
  \<open>sourcePile\<close>, \<open>-2\<close> a run removed from column \<open>sourcePile\<close> to
  foundation \<open>targetPile\<close>, otherwise the transfer of card \<open>cardId\<close> and the
  cards above it.\<close>

datatype move =
    DealMove nat
  | RemovalMove nat nat bool
  | TransferMove nat nat nat bool

definition move_card_id :: "move \<Rightarrow> int" where
  "move_card_id m =
     (case m of DealMove _ \<Rightarrow> -1 | RemovalMove _ _ _ \<Rightarrow> -2 | TransferMove c _ _ _ \<Rightarrow> int c)"

subsection \<open>High-score entries and the game state\<close>

text \<open>\<open>{level, score, date, player}\<close>; \<open>level\<close> is absent (\<open>None\<close>) in
  entries written by the version before levels existed.\<close>

record hs_entry =
  level :: "nat option"
  hs_score :: int
  hs_date :: nat
  player :: string

text \<open>The fields of \<open>ssObj\<close> the engine reads and writes.  \<open>today\<close> is the
  value \<open>new Date()\<close> gives when a high score is entered.\<close>

record game =
  deck :: "card list"
  piles :: piles
  moves :: "move list"
  score :: int
  playing :: bool
  highScores :: "hs_entry list"
  playerName :: string
  statPlayed :: nat
  statWon :: nat
  howManySuits :: nat
  howManySuitsNext :: nat
  today :: nat

text \<open>\<open>recordMove\<close>: the game is under way, a move of a real card costs a
  point, the record is pushed.  (\<open>saveGame\<close>, the persistence call that
  follows, is not part of the state.)\<close>

definition record_move :: "game \<Rightarrow> move \<Rightarrow> game" where
  "record_move g m =
     g\<lparr>playing := True,
       score := (if 0 \<le> move_card_id m then score g - 1 else score g),
       moves := m # moves g\<rparr>"

subsection \<open>Finding a card\<close>

text \<open>\<open>getPileContainingCard\<close>: the nested \<open>forEach\<close> over the piles and
  their cards, left by a thrown exception at the first match; the pile
  index and the position in it.  Not found is \<open>result = -1\<close>.\<close>

fun find_pos :: "pile \<Rightarrow> nat \<Rightarrow> nat \<Rightarrow> nat option" where
  "find_pos [] c k = None"
| "find_pos (x # xs) c k = (if x = c then Some k else find_pos xs c (Suc k))"

fun find_card_from :: "nat \<Rightarrow> piles \<Rightarrow> nat \<Rightarrow> (nat \<times> nat) option" where
  "find_card_from k [] c = None"
| "find_card_from k (p # ps) c =
     (case find_pos p c 0 of Some pos \<Rightarrow> Some (k, pos) | None \<Rightarrow> find_card_from (Suc k) ps c)"

definition find_card :: "piles \<Rightarrow> nat \<Rightarrow> (nat \<times> nat) option" where
  "find_card ps c = find_card_from 0 ps c"

text \<open>The element a card is dropped on: the base \<open>base_n\<close> of an empty-looking
  column, or a card element with id \<open>c\<close>.\<close>

datatype drop_target = Base nat | OnCard nat

text \<open>\<open>getPileDroppedOn\<close>: the pile index and its top card (\<open>cardOnTop\<close>,
  \<open>None\<close> for \<open>undefined\<close>); \<open>None\<close> when the card is in no pile.  A
  base gives column \<open>13 + n\<close> and no top card, whatever the column holds.\<close>

definition get_pile_dropped_on :: "piles \<Rightarrow> drop_target \<Rightarrow> (nat \<times> nat option) option" where
  "get_pile_dropped_on ps tg =
     (case tg of
        Base n \<Rightarrow> Some (13 + n, None)
      | OnCard c \<Rightarrow>
          (case find_card ps c of
             None \<Rightarrow> None
           | Some (k, pos) \<Rightarrow> Some (k, top_of (ps ! k))))"

subsection \<open>Turning cards\<close>

definition set_face :: "card list \<Rightarrow> nat \<Rightarrow> bool \<Rightarrow> card list" where
  "set_face dk x b = dk[x := (dk ! x)\<lparr>facingUp := b\<rparr>]"

text \<open>The block shared by \<open>moveCard\<close> and \<open>checkAndDoRemove\<close>: if the pile
  is not empty and its top card is face down, turn it up and report it.\<close>

definition turn_up_top :: "card list \<Rightarrow> pile \<Rightarrow> card list \<times> bool" where
  "turn_up_top dk p =
     (if p \<noteq> [] \<and> \<not> facingUp (dk ! last p) then (set_face dk (last p) True, True)
      else (dk, False))"

subsection \<open>Draggable cards\<close>

text \<open>\<open>setDraggableCards\<close>: in each column (pile index 13 and up) the top
  card, and below it each card one rank higher and of the same suit as the
  card above it, until the first that is not.  The pile is read top first
  (reversed).  The loop does not look at \<open>facingUp\<close>.\<close>

fun drag_run :: "card list \<Rightarrow> pile \<Rightarrow> nat list" where
  "drag_run dk [] = []"
| "drag_run dk [x] = [x]"
| "drag_run dk (x # y # ys) =
     x # (if hierarchy (dk ! y) = hierarchy (dk ! x) + 1 \<and> suit (dk ! y) = suit (dk ! x)
          then drag_run dk (y # ys) else [])"

definition can_drag :: "game \<Rightarrow> nat \<Rightarrow> bool" where
  "can_drag g c \<longleftrightarrow>
     list_ex (\<lambda>i. c \<in> set (drag_run (deck g) (rev (piles g ! i)))) [13..<length (piles g)]"

subsection \<open>The shape of a game in progress\<close>

text \<open>Reserve piles 0 to 4 hold 0 or 10 cards, the full ones below the empty
  ones (\<open>deal\<close> empties them from the top index down).\<close>

definition reserve_ok :: "piles \<Rightarrow> bool" where
  "reserve_ok ps \<longleftrightarrow>
     list_all (\<lambda>i. ps ! i = [] \<or> length (ps ! i) = 10) [0..<5] \<and>
     list_all (\<lambda>i. ps ! i = [] \<longrightarrow> list_all (\<lambda>j. ps ! j = []) [i..<5]) [0..<5]"

text \<open>Foundations 5 to 12 hold 0 or 13 cards, the full ones first
  (\<open>checkAndDoRemove\<close> fills the lowest empty one).\<close>

definition foundation_ok :: "piles \<Rightarrow> bool" where
  "foundation_ok ps \<longleftrightarrow>
     list_all (\<lambda>i. ps ! i = [] \<or> length (ps ! i) = 13) [5..<13] \<and>
     list_all (\<lambda>i. ps ! i = [] \<longrightarrow> list_all (\<lambda>j. ps ! j = []) [i..<13]) [5..<13]"

text \<open>The top card of every non-empty column is face up.\<close>

definition tops_up :: "card list \<Rightarrow> piles \<Rightarrow> bool" where
  "tops_up dk ps \<longleftrightarrow> list_all (\<lambda>i. ps ! i \<noteq> [] \<longrightarrow> facingUp (dk ! last (ps ! i))) [13..<23]"

text \<open>The deck holds 104 cards, card \<open>i\<close> has id \<open>i\<close> and a face value
  naming its rank.\<close>

definition deck_ok :: "card list \<Rightarrow> bool" where
  "deck_ok dk \<longleftrightarrow> length dk = 104 \<and> list_all (\<lambda>i. card_id (dk ! i) = i \<and> wf_card (dk ! i)) [0..<104]"

text \<open>The invariant: 23 piles that share out the 104 card ids, each exactly
  once, in the shape above.\<close>

definition game_inv :: "game \<Rightarrow> bool" where
  "game_inv g \<longleftrightarrow>
     length (piles g) = 23 \<and> mset (concat (piles g)) = mset [0..<104] \<and> deck_ok (deck g) \<and>
     reserve_ok (piles g) \<and> foundation_ok (piles g) \<and> tops_up (deck g) (piles g)"

text \<open>The records of the log are untyped JavaScript objects whose fields
  \<open>undo\<close> uses as pile indices: a well-typed record names a reserve pile
  (a deal), a column and a foundation (a removal), or a card and two
  columns (a transfer).\<close>

definition move_ok :: "move \<Rightarrow> bool" where
  "move_ok m =
     (case m of
        DealMove s \<Rightarrow> s < 5
      | RemovalMove s t _ \<Rightarrow> 13 \<le> s \<and> s < 23 \<and> 5 \<le> t \<and> t < 13
      | TransferMove c s t _ \<Rightarrow> c < 104 \<and> 13 \<le> s \<and> s < 23 \<and> 13 \<le> t \<and> t < 23)"

definition log_ok :: "game \<Rightarrow> bool" where
  "log_ok g \<longleftrightarrow> list_all move_ok (moves g)"

text \<open>A request the interface can make: a card it marks draggable (so a card
  of a column), dropped on a column base or on a card of a column.\<close>

definition column_target :: "piles \<Rightarrow> drop_target \<Rightarrow> bool" where
  "column_target ps tg \<longleftrightarrow>
     (case tg of
        Base n \<Rightarrow> n < 10
      | OnCard d \<Rightarrow> list_ex (\<lambda>i. d \<in> set (ps ! i)) [13..<23])"

definition ui_request :: "game \<Rightarrow> nat \<Rightarrow> drop_target \<Rightarrow> bool" where
  "ui_request g c tg \<longleftrightarrow> can_drag g c \<and> column_target (piles g) tg"

subsection \<open>Lemmas\<close>

lemma find_pos_Some:
  "find_pos xs c k = Some j \<Longrightarrow> k \<le> j \<and> j - k < length xs \<and> xs ! (j - k) = c"
proof (induction xs c k rule: find_pos.induct)
  case (1 c k)
  then show ?case by simp
next
  case (2 x xs c k)
  then show ?case
    by (cases "x = c") (auto simp: nth_Cons' Suc_diff_le split: if_splits)
qed

lemma find_pos_None: "find_pos xs c k = None \<longleftrightarrow> c \<notin> set xs"
  by (induction xs c k rule: find_pos.induct) auto

lemma find_pos_distinct:
  "distinct xs \<Longrightarrow> p < length xs \<Longrightarrow> xs ! p = c \<Longrightarrow> find_pos xs c k = Some (k + p)"
proof (induction xs arbitrary: p k)
  case Nil
  then show ?case by simp
next
  case (Cons x xs)
  show ?case
  proof (cases p)
    case 0
    with Cons.prems show ?thesis by simp
  next
    case (Suc p')
    with Cons.prems have "x \<noteq> c"
      by auto
    moreover have "find_pos xs c (Suc k) = Some (Suc k + p')"
      using Cons.IH [of p' "Suc k"] Cons.prems Suc by simp
    ultimately show ?thesis using Suc by simp
  qed
qed

lemma find_card_from_Some:
  "find_card_from k ps c = Some (i, pos) \<Longrightarrow>
   k \<le> i \<and> i - k < length ps \<and> pos < length (ps ! (i - k)) \<and> ps ! (i - k) ! pos = c"
proof (induction k ps c rule: find_card_from.induct)
  case (1 k c)
  then show ?case by simp
next
  case (2 k p ps c)
  show ?case
  proof (cases "find_pos p c 0")
    case None
    with "2.prems" have "find_card_from (Suc k) ps c = Some (i, pos)" by simp
    with "2.IH" [OF None] show ?thesis by (auto simp: nth_Cons' Suc_diff_le)
  next
    case (Some j)
    with "2.prems" find_pos_Some [OF Some] show ?thesis by simp
  qed
qed

lemma find_card_Some:
  "find_card ps c = Some (i, pos) \<Longrightarrow> i < length ps \<and> pos < length (ps ! i) \<and> ps ! i ! pos = c"
  using find_card_from_Some [of 0 ps c i pos] by (simp add: find_card_def)

lemma find_card_from_None: "find_card_from k ps c = None \<longleftrightarrow> c \<notin> set (concat ps)"
proof (induction k ps c rule: find_card_from.induct)
  case (1 k c)
  then show ?case by simp
next
  case (2 k p ps c)
  show ?case
  proof (cases "find_pos p c 0")
    case None
    then have "c \<notin> set p" by (simp add: find_pos_None)
    with None "2.IH" show ?thesis by simp
  next
    case (Some j)
    then have "c \<in> set p" using find_pos_None [of p c 0] by auto
    with Some show ?thesis by simp
  qed
qed

lemma find_card_None: "find_card ps c = None \<longleftrightarrow> c \<notin> set (concat ps)"
  by (simp add: find_card_def find_card_from_None)

lemma find_card_unique:
  assumes "distinct (concat ps)" "i < length ps" "pos < length (ps ! i)" "ps ! i ! pos = c"
  shows "find_card ps c = Some (i, pos)"
proof -
  have "c \<in> set (concat ps)"
    using assms(2-4) by (metis UN_I nth_mem set_concat)
  then obtain i' pos' where f: "find_card ps c = Some (i', pos')"
    by (cases "find_card ps c") (auto simp: find_card_None)
  from find_card_Some [OF f] have i': "i' < length ps" "pos' < length (ps ! i')" "ps ! i' ! pos' = c"
    by simp_all
  have "i' = i"
    using distinct_concat_disjoint [OF assms(1) i'(1) assms(2)] i' assms(3,4)
    by (metis nth_mem)
  moreover have "distinct (ps ! i)"
    using assms(1,2) by (rule distinct_concat_pile)
  then have "pos' = pos"
    using i' assms(3,4) \<open>i' = i\<close> by (metis nth_eq_iff_index_eq)
  ultimately show ?thesis using f by simp
qed

lemma set_face_simps [simp]:
  "length (set_face dk x b) = length dk"
  "x < length dk \<Longrightarrow> set_face dk x b ! y = (if y = x then (dk ! x)\<lparr>facingUp := b\<rparr> else dk ! y)"
  by (simp_all add: set_face_def)

lemma turn_up_top_length [simp]: "length (fst (turn_up_top dk p)) = length dk"
  by (simp add: turn_up_top_def)

lemma record_move_simps [simp]:
  "piles (record_move g m) = piles g"
  "deck (record_move g m) = deck g"
  "moves (record_move g m) = m # moves g"
  "playing (record_move g m) = True"
  "highScores (record_move g m) = highScores g"
  "statWon (record_move g m) = statWon g"
  "statPlayed (record_move g m) = statPlayed g"
  by (simp_all add: record_move_def)

lemma record_move_score:
  "score (record_move g m) = score g - (case m of TransferMove _ _ _ _ \<Rightarrow> 1 | _ \<Rightarrow> 0)"
  by (simp add: record_move_def move_card_id_def split: move.split)

lemma game_inv_distinct: "game_inv g \<Longrightarrow> distinct (concat (piles g))"
  by (simp add: game_inv_def mset_eq_upt_distinct)

lemma game_inv_settings [simp]:
  "game_inv (g\<lparr>playerName := n\<rparr>) = game_inv g" "game_inv (g\<lparr>highScores := hs\<rparr>) = game_inv g"
  "game_inv (g\<lparr>howManySuitsNext := l\<rparr>) = game_inv g" "game_inv (g\<lparr>statPlayed := p\<rparr>) = game_inv g"
  "game_inv (g\<lparr>statWon := w\<rparr>) = game_inv g"
  by (simp_all add: game_inv_def)

lemma game_inv_ids:
  "game_inv g \<Longrightarrow> i < length (piles g) \<Longrightarrow> x \<in> set (piles g ! i) \<Longrightarrow> x < 104"
proof -
  assume inv: "game_inv g" and i: "i < length (piles g)" and x: "x \<in> set (piles g ! i)"
  then have "x \<in> set (concat (piles g))" by (metis UN_I nth_mem set_concat)
  then have "x \<in># mset [0..<104]" using inv by (simp add: game_inv_def flip: set_mset_mset)
  then show "x < 104" by simp
qed

lemma deck_ok_card:
  "deck_ok dk \<Longrightarrow> x < 104 \<Longrightarrow> card_id (dk ! x) = x \<and> wf_card (dk ! x)"
  by (simp add: deck_ok_def list_all_iff)

lemma set_face_nth:
  "i < length dk \<Longrightarrow> set_face dk x b ! i = (if i = x then (dk ! i)\<lparr>facingUp := b\<rparr> else dk ! i)"
  by (simp add: set_face_def nth_list_update)

lemma deck_ok_set_face [simp]:
  "deck_ok dk \<Longrightarrow> deck_ok (set_face dk x b)"
  by (auto simp: deck_ok_def list_all_iff set_face_nth wf_card_def)

lemma tops_up_set_face_up:
  "tops_up dk ps \<Longrightarrow> x < length dk \<Longrightarrow> tops_up (set_face dk x True) ps"
  by (auto simp: tops_up_def list_all_iff set_face_nth)

lemma reserve_ok_cong:
  "(\<And>i. i < 5 \<Longrightarrow> ps' ! i = ps ! i) \<Longrightarrow> reserve_ok ps' = reserve_ok ps"
  by (simp add: reserve_ok_def list_all_iff)

lemma foundation_ok_cong:
  "(\<And>i. 5 \<le> i \<Longrightarrow> i < 13 \<Longrightarrow> ps' ! i = ps ! i) \<Longrightarrow> foundation_ok ps' = foundation_ok ps"
  by (simp add: foundation_ok_def list_all_iff)

lemma set_drag_run: "set (drag_run dk xs) \<subseteq> set xs"
  by (induction dk xs rule: drag_run.induct) auto

lemma can_drag_column:
  assumes "can_drag g c" "length (piles g) = 23"
  shows "\<exists>i. 13 \<le> i \<and> i < 23 \<and> c \<in> set (piles g ! i)"
proof -
  from assms(1) obtain i where i: "i \<in> set [13..<length (piles g)]"
    and c: "c \<in> set (drag_run (deck g) (rev (piles g ! i)))"
    by (auto simp: can_drag_def list_ex_iff)
  from c set_drag_run have "c \<in> set (piles g ! i)" by fastforce
  moreover have "13 \<le> i" "i < 23"
    using i assms(2) by (simp_all only: set_upt atLeastLessThan_iff)
  ultimately show ?thesis by blast
qed

lemma turn_up_top_mono:
  "x < length dk \<Longrightarrow> facingUp (dk ! x) \<Longrightarrow> facingUp (fst (turn_up_top dk p) ! x)"
  by (simp add: turn_up_top_def set_face_nth)

lemma turn_up_top_last:
  "p \<noteq> [] \<Longrightarrow> last p < length dk \<Longrightarrow> facingUp (fst (turn_up_top dk p) ! last p)"
  by (simp add: turn_up_top_def set_face_nth)

lemma deck_ok_turn_up_top: "deck_ok dk \<Longrightarrow> deck_ok (fst (turn_up_top dk p))"
  by (simp add: turn_up_top_def)

lemma turn_up_top_snd:
  "snd (turn_up_top dk p) \<longleftrightarrow> p \<noteq> [] \<and> \<not> facingUp (dk ! last p)"
  by (simp add: turn_up_top_def)

lemma game_inv_ids_all:
  "game_inv g \<Longrightarrow> \<forall>i<length (piles g). \<forall>x\<in>set (piles g ! i). x < length (deck g)"
  using game_inv_ids by (fastforce simp: game_inv_def deck_ok_def)

text \<open>The columns keep face-up tops when faces only turn up and every
  column either keeps its cards or gets a face-up top.\<close>

lemma tops_up_mono:
  assumes "tops_up dk ps" "length ps = 23"
    and ids: "\<forall>i<23. \<forall>x\<in>set (ps ! i). x < length dk"
    and up: "\<And>x. x < length dk \<Longrightarrow> facingUp (dk ! x) \<Longrightarrow> facingUp (dk' ! x)"
    and cols: "\<And>j. 13 \<le> j \<Longrightarrow> j < 23 \<Longrightarrow> ps' ! j \<noteq> [] \<Longrightarrow>
                  ps' ! j = ps ! j \<or> facingUp (dk' ! last (ps' ! j))"
  shows "tops_up dk' ps'"
  unfolding tops_up_def list_all_iff
proof (intro ballI impI)
  fix j assume j: "j \<in> set [13..<23]" and ne: "ps' ! j \<noteq> []"
  then have j': "13 \<le> j" "j < 23" by simp_all
  show "facingUp (dk' ! last (ps' ! j))"
  proof (cases "ps' ! j = ps ! j")
    case True
    with ne have "facingUp (dk ! last (ps ! j))"
      using assms(1) j by (simp add: tops_up_def list_all_iff)
    moreover have "last (ps ! j) < length dk"
      using ids j' ne True by simp
    ultimately show ?thesis using up True by simp
  next
    case False
    with cols [OF j' ne] show ?thesis by simp
  qed
qed

end
