(* ===== verification/HighScores.thy ===== *)
theory HighScores
  imports Game
begin

text \<open>
  The high-score table of \<open>highScoreCheck\<close>: a list of at most
  \<open>scoresToKeep = 10\<close> entries ordered by level and then score, both
  descending.  The loop of the source walks the table, fills in the level of
  entries from the version before levels (as 4), inserts the new entry in
  front of the first entry it outranks and drops the last entry when the table
  overflows; if it outranks none it is appended when there is room.
  Lemmas: the table stays within its bound and stays ordered; the loop is a
  truncated insertion before the first strictly lower entry
  (\<open>hs_insert_ref\<close>), with ties keeping the older entry first.
\<close>

definition scores_to_keep :: nat where
  "scores_to_keep = 10"

text \<open>The level of an entry as the loop reads it after the fix-up
  \<open>if (level === undefined) level = 4\<close>.\<close>

definition hs_level :: "hs_entry \<Rightarrow> nat" where
  "hs_level e = (case level e of None \<Rightarrow> 4 | Some l \<Rightarrow> l)"

definition norm_level :: "hs_entry \<Rightarrow> hs_entry" where
  "norm_level e = (if level e = None then e\<lparr>level := Some 4\<rparr> else e)"

text \<open>\<open>(highScore.level < howManySuits) ||
  ((highScore.level == howManySuits) && (highScore.score < score))\<close>.\<close>

definition outranked_by :: "hs_entry \<Rightarrow> nat \<Rightarrow> int \<Rightarrow> bool" where
  "outranked_by e lv sc \<longleftrightarrow> hs_level e < lv \<or> (hs_level e = lv \<and> hs_score e < sc)"

text \<open>The \<open>for\<close> loop up to its \<open>break\<close>: the table after the loop, and
  whether the entry was spliced in.  Entries the loop visits get their level
  fixed; the ones after the insertion point are left as they are.\<close>

fun hs_scan :: "hs_entry \<Rightarrow> hs_entry list \<Rightarrow> hs_entry list \<times> bool" where
  "hs_scan new [] = ([], False)"
| "hs_scan new (e # es) =
     (let e' = norm_level e in
      if outranked_by e' (hs_level new) (hs_score new) then (new # e' # es, True)
      else (let (r, b) = hs_scan new es in (e' # r, b)))"

text \<open>The splice with the \<open>pop\<close> of an overflowing table, and the append
  after the loop when \<open>index == length && length < scoresToKeep\<close>.\<close>

definition insert_high_score :: "hs_entry \<Rightarrow> hs_entry list \<Rightarrow> hs_entry list" where
  "insert_high_score new hs =
     (let (r, ins) = hs_scan new hs in
      if ins then (if scores_to_keep < length r then butlast r else r)
      else if length hs < scores_to_keep then r @ [new] else r)"

text \<open>\<open>highScoreCheck\<close> on the game: the entry is
  \<open>{level: howManySuits, score, date: new Date(), player: playerName}\<close>.\<close>

definition hs_new_entry :: "game \<Rightarrow> hs_entry" where
  "hs_new_entry g =
     \<lparr>level = Some (howManySuits g), hs_score = score g, hs_date = today g, player = playerName g\<rparr>"

definition high_score_check :: "game \<Rightarrow> game" where
  "high_score_check g = g\<lparr>highScores := insert_high_score (hs_new_entry g) (highScores g)\<rparr>"

subsection \<open>Reference behaviour\<close>

text \<open>What the table promises: \<open>a\<close> ranks at least as high as \<open>b\<close>; and
  the insertion in front of the first entry the new one outranks.\<close>

definition hs_ge :: "hs_entry \<Rightarrow> hs_entry \<Rightarrow> bool" where
  "hs_ge a b \<longleftrightarrow> hs_level b < hs_level a \<or> (hs_level b = hs_level a \<and> hs_score b \<le> hs_score a)"

definition hs_insert_ref :: "hs_entry \<Rightarrow> hs_entry list \<Rightarrow> hs_entry list" where
  "hs_insert_ref new xs =
     (let p = (\<lambda>e. \<not> outranked_by e (hs_level new) (hs_score new))
      in takeWhile p xs @ new # dropWhile p xs)"

subsection \<open>Lemmas\<close>

lemma norm_level_simps [simp]:
  "hs_level (norm_level e) = hs_level e"
  "hs_score (norm_level e) = hs_score e"
  "norm_level (norm_level e) = norm_level e"
  by (simp_all add: norm_level_def hs_level_def)

lemma hs_ge_norm [simp]: "hs_ge (norm_level a) (norm_level b) = hs_ge a b"
  by (simp add: hs_ge_def)

lemma outranked_norm [simp]: "outranked_by (norm_level e) lv sc = outranked_by e lv sc"
  by (simp add: outranked_by_def)

lemma hs_scan_snd:
  "snd (hs_scan new hs) \<longleftrightarrow> (\<exists>e\<in>set hs. outranked_by e (hs_level new) (hs_score new))"
  by (induction new hs rule: hs_scan.induct) (auto simp: Let_def split: prod.splits)

lemma hs_scan_length:
  "length (fst (hs_scan new hs)) = length hs + (if snd (hs_scan new hs) then 1 else 0)"
  by (induction new hs rule: hs_scan.induct) (auto simp: Let_def split: prod.splits)

lemma hs_scan_fst:
  "map norm_level (fst (hs_scan new hs)) =
   (if snd (hs_scan new hs) then hs_insert_ref (norm_level new) (map norm_level hs)
    else map norm_level hs)"
  by (induction new hs rule: hs_scan.induct)
     (auto simp: Let_def hs_insert_ref_def split: prod.splits)

lemma hs_insert_ref_none:
  "\<not> (\<exists>e\<in>set xs. outranked_by e (hs_level new) (hs_score new)) \<Longrightarrow> hs_insert_ref new xs = xs @ [new]"
  by (simp add: hs_insert_ref_def Let_def takeWhile_eq_all_conv dropWhile_eq_Nil_conv)

lemma insert_high_score_alt:
  "insert_high_score new hs =
     (if snd (hs_scan new hs)
      then (if scores_to_keep < length (fst (hs_scan new hs)) then butlast (fst (hs_scan new hs))
            else fst (hs_scan new hs))
      else if length hs < scores_to_keep then fst (hs_scan new hs) @ [new] else fst (hs_scan new hs))"
  by (simp add: insert_high_score_def case_prod_beta)

lemma length_hs_insert_ref [simp]: "length (hs_insert_ref new xs) = Suc (length xs)"
proof -
  have "length (takeWhile P xs) + length (dropWhile P xs) = length xs" for P
    by (metis length_append takeWhile_dropWhile_id)
  then show ?thesis by (simp add: hs_insert_ref_def Let_def)
qed

lemma insert_high_score_ref:
  assumes "length hs \<le> scores_to_keep"
  shows "map norm_level (insert_high_score new hs) =
         take scores_to_keep (hs_insert_ref (norm_level new) (map norm_level hs))"
proof (cases "snd (hs_scan new hs)")
  case True
  let ?r = "fst (hs_scan new hs)"
  have len: "length ?r = Suc (length hs)"
    using hs_scan_length [of new hs] True by simp
  have r: "map norm_level ?r = hs_insert_ref (norm_level new) (map norm_level hs)"
    using hs_scan_fst [of new hs] True by simp
  show ?thesis
  proof (cases "scores_to_keep < length ?r")
    case over: True
    then have "length ?r = Suc scores_to_keep" using len assms by simp
    then have "butlast (map norm_level ?r) = take scores_to_keep (map norm_level ?r)"
      by (simp add: butlast_conv_take)
    with True over r show ?thesis
      by (simp add: insert_high_score_alt map_butlast)
  next
    case False
    with True r len assms show ?thesis
      by (simp add: insert_high_score_alt)
  qed
next
  case False
  then have none: "\<not> (\<exists>e\<in>set (map norm_level hs). outranked_by e (hs_level (norm_level new)) (hs_score (norm_level new)))"
    by (simp add: hs_scan_snd)
  have r: "map norm_level (fst (hs_scan new hs)) = map norm_level hs"
    using hs_scan_fst [of new hs] False by simp
  show ?thesis
    using False assms r by (auto simp: insert_high_score_alt hs_insert_ref_none [OF none])
qed

lemma hs_ge_trans: "hs_ge a b \<Longrightarrow> hs_ge b c \<Longrightarrow> hs_ge a c"
  by (auto simp: hs_ge_def)

lemma not_outranked_ge: "\<not> outranked_by e (hs_level n) (hs_score n) \<Longrightarrow> hs_ge e n"
  by (auto simp: outranked_by_def hs_ge_def)

lemma outranked_ge: "outranked_by e (hs_level n) (hs_score n) \<Longrightarrow> hs_ge n e"
  by (auto simp: outranked_by_def hs_ge_def)

lemma sorted_hs_insert_ref:
  assumes "sorted_wrt hs_ge xs"
  shows "sorted_wrt hs_ge (hs_insert_ref new xs)"
proof -
  define P where "P = (\<lambda>e. \<not> outranked_by e (hs_level new) (hs_score new))"
  let ?as = "takeWhile P xs" and ?bs = "dropWhile P xs"
  have split: "?as @ ?bs = xs" by simp
  then have sa: "sorted_wrt hs_ge ?as" and sb: "sorted_wrt hs_ge ?bs"
    and cross: "\<And>a b. a \<in> set ?as \<Longrightarrow> b \<in> set ?bs \<Longrightarrow> hs_ge a b"
    using assms by (metis sorted_wrt_append)+
  have a_new: "hs_ge a new" if "a \<in> set ?as" for a
    using that set_takeWhileD [OF that] not_outranked_ge unfolding P_def by blast
  have new_b: "hs_ge new b" if "b \<in> set ?bs" for b
  proof (cases ?bs)
    case Nil
    with that show ?thesis by simp
  next
    case (Cons d rest)
    then have "\<not> P d" by (metis hd_dropWhile list.sel(1) list.simps(3))
    then have nd: "hs_ge new d" unfolding P_def by (simp add: outranked_ge)
    show ?thesis
    proof (cases "b = d")
      case True
      with nd show ?thesis by simp
    next
      case False
      with that Cons have "b \<in> set rest" by simp
      with sb Cons have "hs_ge d b" by simp
      with nd show ?thesis by (rule hs_ge_trans)
    qed
  qed
  have "sorted_wrt hs_ge (new # ?bs)"
    using sb new_b by simp
  moreover have "\<forall>a\<in>set ?as. \<forall>b\<in>set (new # ?bs). hs_ge a b"
    using a_new cross by simp
  ultimately show ?thesis
    using sa by (simp add: hs_insert_ref_def P_def [symmetric] sorted_wrt_append)
qed

lemma sorted_hs_ge_norm: "sorted_wrt hs_ge (map norm_level xs) = sorted_wrt hs_ge xs"
  by (simp add: sorted_wrt_map)

lemma insert_high_score_sorted:
  assumes "length hs \<le> scores_to_keep" "sorted_wrt hs_ge hs"
  shows "sorted_wrt hs_ge (insert_high_score new hs)"
proof -
  have "sorted_wrt hs_ge (hs_insert_ref (norm_level new) (map norm_level hs))"
    using assms(2) by (simp add: sorted_hs_insert_ref sorted_hs_ge_norm)
  then have "sorted_wrt hs_ge (take scores_to_keep (hs_insert_ref (norm_level new) (map norm_level hs)))"
    by (rule sorted_wrt_take)
  then show ?thesis
    by (simp add: insert_high_score_ref [OF assms(1), symmetric] sorted_hs_ge_norm)
qed

lemma insert_high_score_bound:
  assumes "length hs \<le> scores_to_keep"
  shows "length (insert_high_score new hs) \<le> scores_to_keep"
  using arg_cong [OF insert_high_score_ref [OF assms, of new], of length] by simp

subsection \<open>The table kept by \<open>highScoreCheck\<close>\<close>

lemma high_score_check_eq:
  "highScores (high_score_check g) = insert_high_score (hs_new_entry g) (highScores g)"
  by (simp add: high_score_check_def)

text \<open>C18: \<open>highScoreCheck\<close> keeps a table of at most ten entries ordered by
  level and score, descending, ordered and bounded.\<close>

theorem high_score_check_table:
  assumes "length (highScores g) \<le> scores_to_keep" "sorted_wrt hs_ge (highScores g)"
  shows "length (highScores (high_score_check g)) \<le> scores_to_keep \<and>
         sorted_wrt hs_ge (highScores (high_score_check g))"
  using insert_high_score_bound [OF assms(1)] insert_high_score_sorted [OF assms]
  by (simp add: high_score_check_eq)

text \<open>C19: \<open>highScoreCheck\<close> is the insertion of the new entry in front of the
  first entry it strictly outranks, cut to ten entries; an equal entry stays in
  front of the new one.\<close>

theorem high_score_check_insert:
  assumes "length (highScores g) \<le> scores_to_keep"
  shows "map norm_level (highScores (high_score_check g)) =
         take scores_to_keep (hs_insert_ref (hs_new_entry g) (map norm_level (highScores g)))"
proof -
  have "norm_level (hs_new_entry g) = hs_new_entry g"
    by (simp add: norm_level_def hs_new_entry_def)
  then show ?thesis
    using insert_high_score_ref [OF assms, of "hs_new_entry g"] by (simp add: high_score_check_eq)
qed

theorem high_score_check_table_witness:
  "length (highScores \<lparr>deck = [], piles = [], moves = [], score = 420, playing = False,
      highScores = [\<lparr>level = None, hs_score = 600, hs_date = 1, player = ''ann''\<rparr>,
                    \<lparr>level = Some 2, hs_score = 900, hs_date = 2, player = ''bob''\<rparr>],
      playerName = ''cy'', statPlayed = 3, statWon = 1, howManySuits = 4, howManySuitsNext = 4, today = 7\<rparr>) \<le> scores_to_keep \<and>
   sorted_wrt hs_ge (highScores \<lparr>deck = [], piles = [], moves = [], score = 420, playing = False,
      highScores = [\<lparr>level = None, hs_score = 600, hs_date = 1, player = ''ann''\<rparr>,
                    \<lparr>level = Some 2, hs_score = 900, hs_date = 2, player = ''bob''\<rparr>],
      playerName = ''cy'', statPlayed = 3, statWon = 1, howManySuits = 4, howManySuitsNext = 4, today = 7\<rparr>) \<and>
   length (highScores (high_score_check \<lparr>deck = [], piles = [], moves = [], score = 420, playing = False,
      highScores = [\<lparr>level = None, hs_score = 600, hs_date = 1, player = ''ann''\<rparr>,
                    \<lparr>level = Some 2, hs_score = 900, hs_date = 2, player = ''bob''\<rparr>],
      playerName = ''cy'', statPlayed = 3, statWon = 1, howManySuits = 4, howManySuitsNext = 4, today = 7\<rparr>)) \<le> scores_to_keep \<and>
   sorted_wrt hs_ge (highScores (high_score_check \<lparr>deck = [], piles = [], moves = [], score = 420, playing = False,
      highScores = [\<lparr>level = None, hs_score = 600, hs_date = 1, player = ''ann''\<rparr>,
                    \<lparr>level = Some 2, hs_score = 900, hs_date = 2, player = ''bob''\<rparr>],
      playerName = ''cy'', statPlayed = 3, statWon = 1, howManySuits = 4, howManySuitsNext = 4, today = 7\<rparr>))"
proof -
  have h1: "length (highScores \<lparr>deck = [], piles = [], moves = [], score = 420, playing = False,
      highScores = [\<lparr>level = None, hs_score = 600, hs_date = 1, player = ''ann''\<rparr>,
                    \<lparr>level = Some 2, hs_score = 900, hs_date = 2, player = ''bob''\<rparr>],
      playerName = ''cy'', statPlayed = 3, statWon = 1, howManySuits = 4, howManySuitsNext = 4, today = 7\<rparr>) \<le> scores_to_keep"
    by (simp add: scores_to_keep_def)
  have h2: "sorted_wrt hs_ge (highScores \<lparr>deck = [], piles = [], moves = [], score = 420, playing = False,
      highScores = [\<lparr>level = None, hs_score = 600, hs_date = 1, player = ''ann''\<rparr>,
                    \<lparr>level = Some 2, hs_score = 900, hs_date = 2, player = ''bob''\<rparr>],
      playerName = ''cy'', statPlayed = 3, statWon = 1, howManySuits = 4, howManySuitsNext = 4, today = 7\<rparr>)"
    by (simp add: hs_ge_def hs_level_def)
  show ?thesis using h1 h2 high_score_check_table [OF h1 h2] by simp
qed

theorem high_score_check_insert_witness:
  "length (highScores \<lparr>deck = [], piles = [], moves = [], score = 420, playing = False,
      highScores = [\<lparr>level = None, hs_score = 600, hs_date = 1, player = ''ann''\<rparr>,
                    \<lparr>level = Some 2, hs_score = 900, hs_date = 2, player = ''bob''\<rparr>],
      playerName = ''cy'', statPlayed = 3, statWon = 1, howManySuits = 4, howManySuitsNext = 4, today = 7\<rparr>) \<le> scores_to_keep \<and>
   map norm_level (highScores (high_score_check \<lparr>deck = [], piles = [], moves = [], score = 420, playing = False,
      highScores = [\<lparr>level = None, hs_score = 600, hs_date = 1, player = ''ann''\<rparr>,
                    \<lparr>level = Some 2, hs_score = 900, hs_date = 2, player = ''bob''\<rparr>],
      playerName = ''cy'', statPlayed = 3, statWon = 1, howManySuits = 4, howManySuitsNext = 4, today = 7\<rparr>)) =
   take scores_to_keep (hs_insert_ref (hs_new_entry \<lparr>deck = [], piles = [], moves = [], score = 420, playing = False,
      highScores = [\<lparr>level = None, hs_score = 600, hs_date = 1, player = ''ann''\<rparr>,
                    \<lparr>level = Some 2, hs_score = 900, hs_date = 2, player = ''bob''\<rparr>],
      playerName = ''cy'', statPlayed = 3, statWon = 1, howManySuits = 4, howManySuitsNext = 4, today = 7\<rparr>)
     (map norm_level (highScores \<lparr>deck = [], piles = [], moves = [], score = 420, playing = False,
      highScores = [\<lparr>level = None, hs_score = 600, hs_date = 1, player = ''ann''\<rparr>,
                    \<lparr>level = Some 2, hs_score = 900, hs_date = 2, player = ''bob''\<rparr>],
      playerName = ''cy'', statPlayed = 3, statWon = 1, howManySuits = 4, howManySuitsNext = 4, today = 7\<rparr>)))"
proof -
  have h1: "length (highScores \<lparr>deck = [], piles = [], moves = [], score = 420, playing = False,
      highScores = [\<lparr>level = None, hs_score = 600, hs_date = 1, player = ''ann''\<rparr>,
                    \<lparr>level = Some 2, hs_score = 900, hs_date = 2, player = ''bob''\<rparr>],
      playerName = ''cy'', statPlayed = 3, statWon = 1, howManySuits = 4, howManySuitsNext = 4, today = 7\<rparr>) \<le> scores_to_keep"
    by (simp add: scores_to_keep_def)
  show ?thesis using h1 high_score_check_insert [OF h1] by simp
qed

end
