(* ===== verification/Layout.thy ===== *)
theory Layout
  imports Game
begin

text \<open>
  The start of a game in \<open>src/V2/ssjs/spider-solitaire.js\<close>: \<open>newGame\<close>
  resets the engine and calls \<open>prepareCards\<close>, whose new-game branch builds
  and shuffles the pack (theory \<open>Cards\<close>), numbers the cards, deals five
  reserve piles of ten and then deals the other 54 cards round by round onto
  the ten columns, the last ten face up; its load branch takes the game
  \<open>readGame\<close> found in \<open>localStorage\<close>.  The save/restore dialog of
  \<open>showMenu\<close> encodes the deck as a string and lays out a restored deck with
  the same two loops.

  Lemmas: the dealing loop equals a closed form (column \<open>13 + j\<close> gets the
  cards \<open>c\<close> with \<open>c mod 10 = j\<close>); a new game and a restored well-formed
  deck satisfy the invariant \<open>game_inv\<close>; the layout has columns of six and
  five cards with exactly their tops face up; the save string round trip;
  the load branch always resumes play.
\<close>

subsection \<open>Dealing\<close>

text \<open>\<open>for (stack = 0; stack < 5; stack++) for (card = 0; card < 10; card++)
  piles[stack].push(pile[stack * 10 + card])\<close>.  The restore dialog also
  sets \<open>facingUp = false\<close> on each card it deals there (\<open>restore\<close>).\<close>

definition deal_reserves :: "bool \<Rightarrow> card list \<Rightarrow> piles \<Rightarrow> card list \<times> piles" where
  "deal_reserves restore dk ps =
     fold (\<lambda>stack. fold (\<lambda>c (dk, ps).
               (if restore then set_face dk (stack * 10 + c) False else dk,
                push_pile ps stack (stack * 10 + c))) [0..<10]) [0..<5] (dk, ps)"

text \<open>The face of a card dealt to a column: the new game turns up the
  cards from 94 on (\<open>if (card >= 94) pile[card].facingUp = true\<close>), the
  restore dialog sets every face (\<open>tmpArray[card].facingUp = (card >= 94)\<close>).\<close>

definition face_card :: "bool \<Rightarrow> nat \<Rightarrow> card list \<Rightarrow> card list" where
  "face_card restore c dk =
     (if restore then set_face dk c (94 \<le> c) else if 94 \<le> c then set_face dk c True else dk)"

text \<open>One round of the do-while loop: \<open>for (stack = 13; stack < 23; stack++)\<close>
  pushing \<open>pile[card]\<close> and \<open>card++\<close>, with \<open>break\<close> once \<open>card >= 104\<close>.
  The result carries \<open>card\<close>.\<close>

function deal_row :: "bool \<Rightarrow> nat \<Rightarrow> nat \<Rightarrow> card list \<Rightarrow> piles \<Rightarrow> nat \<times> card list \<times> piles" where
  "deal_row restore stack c dk ps =
     (if stack < 23 then
        (let dk' = face_card restore c dk; ps' = push_pile ps stack c in
         if 104 \<le> Suc c then (Suc c, dk', ps')
         else deal_row restore (Suc stack) (Suc c) dk' ps')
      else (c, dk, ps))"
  by pat_completeness auto
termination
  by (relation "measure (\<lambda>(restore, stack, c, dk, ps). 23 - stack)") auto

text \<open>\<open>card = 50; do { ... } while (card < 104)\<close>.  Each round deals at
  least one card, which is the measure of the loop.\<close>

function deal_rows :: "bool \<Rightarrow> nat \<Rightarrow> card list \<Rightarrow> piles \<Rightarrow> card list \<times> piles" where
  "deal_rows restore c dk ps =
     (case deal_row restore 13 c dk ps of
        (c', dk', ps') \<Rightarrow> if c' < 104 then deal_rows restore c' dk' ps' else (dk', ps'))"
  by pat_completeness auto
termination
proof -
  have adv: "deal_row r stack c dk ps = (c', st) \<Longrightarrow> stack < 23 \<Longrightarrow> c < c'"
    for r stack c dk ps c' st
  proof (induction r stack c dk ps arbitrary: c' st rule: deal_row.induct)
    case (1 r stack c dk ps)
    then show ?case by (subst (asm) deal_row.simps) (fastforce simp: Let_def split: if_splits)
  qed
  show ?thesis
    apply (relation "measure (\<lambda>(restore, c, dk, ps). 104 - c)")
     apply simp
    apply (drule sym)
    apply (frule adv)
     apply simp
    apply (simp del: deal_row.simps)
    done
qed

subsection \<open>The engine at construction\<close>

text \<open>The fields the constructor \<open>SpiderSolitaire\<close> sets (the spacing
  constants are presentation); \<open>today\<close> is the date the environment
  supplies.\<close>

definition initial_game :: "nat \<Rightarrow> game" where
  "initial_game d =
     \<lparr>deck = [], piles = [], moves = [], score = 500, playing = False, highScores = [],
      playerName = [], statPlayed = 0, statWon = 0, howManySuits = 4, howManySuitsNext = 4, today = d\<rparr>"

subsection \<open>\<open>prepareCards\<close>\<close>

text \<open>The new-game branch.  \<open>piles\<close> is rebuilt as 23 empty piles only when
  it is empty (\<open>if (ssObj.piles.length == 0)\<close>); a shorter non-empty array
  makes a later \<open>piles[stack].push\<close> throw.  \<open>forgetGame\<close> only clears
  \<open>localStorage\<close>.\<close>

definition new_deal :: "draws \<Rightarrow> game \<Rightarrow> error + game" where
  "new_deal r g =
     (if piles g \<noteq> [] \<and> length (piles g) < 23 then Inl TypeError
      else
        (let n = howManySuitsNext g;
             ps0 = (if piles g = [] then replicate 23 [] else piles g);
             pile = assign_ids (shuffle r (create_cards (choose_suits n r)));
             (dk1, ps1) = deal_reserves False pile ps0;
             (dk2, ps2) = deal_rows False 50 dk1 ps1
         in Inr (g\<lparr>howManySuits := n, score := 500, piles := ps2, deck := dk2\<rparr>)))"

text \<open>What \<open>readGame\<close> takes from \<open>localStorage\<close>, each item as
  \<open>readStorage\<close> returns it (\<open>[]\<close>, \<open>0\<close> or \<open>''\<close> for an item missing or
  not parsable).\<close>

record saved =
  sv_playerName :: string
  sv_highScores :: "hs_entry list"
  sv_deck :: "card list"
  sv_piles :: piles
  sv_moves :: "move list"
  sv_score :: int
  sv_played :: nat
  sv_won :: nat

text \<open>\<open>readGame\<close>: with storage (\<open>Some\<close>) the eight fields are overwritten
  and the result is \<open>piles.length == 23\<close>; without it, \<open>false\<close>.\<close>

definition read_game :: "saved option \<Rightarrow> game \<Rightarrow> game \<times> bool" where
  "read_game sv g =
     (case sv of
        None \<Rightarrow> (g, False)
      | Some s \<Rightarrow>
          (g\<lparr>playerName := sv_playerName s, highScores := sv_highScores s, deck := sv_deck s,
             piles := sv_piles s, moves := sv_moves s, score := sv_score s,
             statPlayed := sv_played s, statWon := sv_won s\<rparr>,
           length (sv_piles s) = 23))"

text \<open>The load branch: \<open>howManySuits = howManySuitsNext = countSuits()\<close> and
  \<open>playing = (piles[0].length != 13)\<close>; the button states are presentation.\<close>

definition load_game :: "game \<Rightarrow> game" where
  "load_game g =
     g\<lparr>howManySuits := count_suits (deck g), howManySuitsNext := count_suits (deck g),
       playing := (length (piles g ! 0) \<noteq> 13)\<rparr>"

text \<open>\<open>prepareCards(forgetOld)\<close>: \<open>!forgetOld && readGame()\<close> chooses the
  branch.\<close>

definition prepare_cards :: "bool \<Rightarrow> saved option \<Rightarrow> draws \<Rightarrow> game \<Rightarrow> error + game" where
  "prepare_cards forgetOld sv r g =
     (let (g1, ongoing) = (if forgetOld then (g, False) else read_game sv g)
      in if ongoing then Inr (load_game g1) else new_deal r g1)"

text \<open>\<open>newGame(forgetOld)\<close>: the engine fields are reset before
  \<open>prepareCards\<close>; the rest of \<open>newGame\<close> draws the table.\<close>

definition new_game :: "bool \<Rightarrow> saved option \<Rightarrow> draws \<Rightarrow> game \<Rightarrow> error + game" where
  "new_game forgetOld sv r g =
     prepare_cards forgetOld sv r (g\<lparr>moves := [], piles := [], deck := [], score := 500, playing := False\<rparr>)"

text \<open>\<open>checkForNewGame\<close> and \<open>abortGame\<close>: a game under way is abandoned
  only when the player confirms, and then counts as played.\<close>

definition check_for_new_game :: "bool \<Rightarrow> draws \<Rightarrow> game \<Rightarrow> error + game" where
  "check_for_new_game confirmed r g =
     (if \<not> playing g then new_game True None r g
      else if confirmed then new_game True None r (g\<lparr>statPlayed := statPlayed g + 1\<rparr>)
      else Inr g)"

subsection \<open>Save and restore\<close>

text \<open>The save string: \<open>JSON.stringify(deck).replace(/ /g, "@")
  .replace(/\"/g, " ")\<close>, and the inverse the restore button applies before
  \<open>JSON.parse\<close>: \<open>.replace(/ /g, "\"").replace(/@/g, " ")\<close>.\<close>

definition save_encode :: "string \<Rightarrow> string" where
  "save_encode s =
     map (\<lambda>ch. if ch = CHR 0x22 then CHR '' '' else ch)
       (map (\<lambda>ch. if ch = CHR '' '' then CHR ''@'' else ch) s)"

definition restore_decode :: "string \<Rightarrow> string" where
  "restore_decode s =
     map (\<lambda>ch. if ch = CHR ''@'' then CHR '' '' else ch)
       (map (\<lambda>ch. if ch = CHR '' '' then CHR 0x22 else ch) s)"

text \<open>\<open>saveGame\<close> of a game under way: the eight items written to
  \<open>localStorage\<close>.\<close>

definition save_game :: "game \<Rightarrow> saved" where
  "save_game g =
     \<lparr>sv_playerName = playerName g, sv_highScores = highScores g, sv_deck = deck g,
      sv_piles = piles g, sv_moves = moves g, sv_score = score g,
      sv_played = statPlayed g, sv_won = statWon g\<rparr>"

text \<open>The restore button once \<open>tmpArray.length == 2 * 52\<close>: moves cleared,
  score 500, the 23 piles emptied, the same two dealing loops (setting every
  face), \<open>playing = true\<close>, \<open>saveGame()\<close>, \<open>countSuits()\<close> and
  \<open>newGame(false)\<close>, which reads the saved game back.  Without
  \<open>localStorage\<close> (\<open>storage\<close> false) nothing was saved and \<open>newGame(false)\<close>
  deals a new game instead.\<close>

definition restore_game :: "bool \<Rightarrow> draws \<Rightarrow> card list \<Rightarrow> game \<Rightarrow> error + game" where
  "restore_game storage r arr g =
     (if length arr = 2 * 52 then
        (let ps0 = replicate 23 [] @ drop 23 (piles g);
             (dk1, ps1) = deal_reserves True arr ps0;
             (dk2, ps2) = deal_rows True 50 dk1 ps1;
             g1 = g\<lparr>moves := [], deck := dk2, score := 500, piles := ps2, playing := True\<rparr>;
             g2 = g1\<lparr>howManySuits := count_suits dk2\<rparr>
         in new_game False (if storage then Some (save_game g2) else None) r g2)
      else Inr g)"

text \<open>The restore button: an empty string does nothing; otherwise the
  string is decoded and parsed (\<open>parse\<close> stands for \<open>JSON.parse\<close>, \<open>None\<close>
  for the exception it throws) and restored if it has 104 entries.\<close>

definition restore_from_string ::
  "(string \<Rightarrow> card list option) \<Rightarrow> bool \<Rightarrow> draws \<Rightarrow> string \<Rightarrow> game \<Rightarrow> error + game" where
  "restore_from_string parse storage r s g =
     (if s = [] then Inr g
      else (case parse (restore_decode s) of
              None \<Rightarrow> Inr g
            | Some arr \<Rightarrow> restore_game storage r arr g))"

subsection \<open>The layout the dealing loops are meant to produce\<close>

text \<open>Reserve pile \<open>j < 5\<close> holds cards \<open>10 j\<close> to \<open>10 j + 9\<close>, the
  foundations are empty, and column \<open>13 + j\<close> holds the cards \<open>c\<close> from 50
  on with \<open>c mod 10 = j\<close>, bottom to top.\<close>

definition initial_layout :: piles where
  "initial_layout =
     map (\<lambda>j. if j < 5 then [j * 10..<j * 10 + 10] else if j < 13 then []
              else filter (\<lambda>c. c mod 10 = j - 13) [50..<104]) [0..<23]"

subsection \<open>Lemmas\<close>

declare deal_row.simps [simp del] deal_rows.simps [simp del]

lemma face_card_nth [simp]:
  "length (face_card r c dk) = length dk"
  "i < length dk \<Longrightarrow> face_card r c dk ! i =
     (if i = c then (dk ! c)\<lparr>facingUp := (if r then 94 \<le> c else facingUp (dk ! c) \<or> 94 \<le> c)\<rparr>
      else dk ! i)"
  by (auto simp: face_card_def set_face_nth)

lemma deal_row_closed:
  assumes "deal_row r stack c dk ps = (c', dk', ps')" "c < 104" "stack \<le> 23" "23 \<le> length ps"
  shows "c' = c + min (23 - stack) (104 - c) \<and> length dk' = length dk \<and>
         (\<forall>i < length dk. dk' ! i =
            (if c \<le> i \<and> i < c + min (23 - stack) (104 - c)
             then (dk ! i)\<lparr>facingUp := (if r then 94 \<le> i else facingUp (dk ! i) \<or> 94 \<le> i)\<rparr>
             else dk ! i)) \<and>
         length ps' = length ps \<and>
         (\<forall>j < length ps. ps' ! j =
            (if stack \<le> j \<and> j < stack + min (23 - stack) (104 - c)
             then ps ! j @ [c + (j - stack)] else ps ! j))"
  using assms
proof (induction r stack c dk ps arbitrary: c' dk' ps' rule: deal_row.induct)
  case (1 r stack c dk ps)
  show ?case
  proof (cases "stack < 23")
    case False
    with "1.prems" show ?thesis by (auto simp: deal_row.simps)
  next
    case st: True
    let ?dk1 = "face_card r c dk" and ?ps1 = "push_pile ps stack c"
    show ?thesis
    proof (cases "104 \<le> Suc c")
      case True
      then have c: "c = 103" using "1.prems"(2) by simp
      from "1.prems"(1) st True have "c' = Suc c" "dk' = ?dk1" "ps' = ?ps1"
        by (simp_all add: deal_row.simps Let_def)
      with c st "1.prems"(4) show ?thesis by (auto simp: pile_simps)
    next
      case False
      from "1.prems"(1) st False
      have rec: "deal_row r (Suc stack) (Suc c) ?dk1 ?ps1 = (c', dk', ps')"
        by (simp add: deal_row.simps Let_def)
      define n' where "n' = min (23 - Suc stack) (104 - Suc c)"
      have IH: "c' = Suc c + n' \<and> length dk' = length dk \<and>
         (\<forall>i < length dk. dk' ! i =
            (if Suc c \<le> i \<and> i < Suc c + n'
             then (?dk1 ! i)\<lparr>facingUp := (if r then 94 \<le> i else facingUp (?dk1 ! i) \<or> 94 \<le> i)\<rparr>
             else ?dk1 ! i)) \<and>
         length ps' = length ps \<and>
         (\<forall>j < length ps. ps' ! j =
            (if Suc stack \<le> j \<and> j < Suc stack + n'
             then ?ps1 ! j @ [Suc c + (j - Suc stack)] else ?ps1 ! j))"
        using "1.IH" [OF st _ _ _ rec] False st "1.prems"(4) unfolding n'_def by (simp add: length_push_pile)
      have m: "min (23 - stack) (104 - c) = Suc n'"
        using st False unfolding n'_def by simp
      show ?thesis
      proof (intro conjI allI impI)
        show "c' = c + min (23 - stack) (104 - c)" using IH m by simp
        show "length dk' = length dk" "length ps' = length ps" using IH by simp_all
      next
        fix i assume "i < length dk"
        show "dk' ! i = (if c \<le> i \<and> i < c + min (23 - stack) (104 - c)
             then (dk ! i)\<lparr>facingUp := (if r then 94 \<le> i else facingUp (dk ! i) \<or> 94 \<le> i)\<rparr>
             else dk ! i)"
        proof -
          have d: "dk' ! i = (if Suc c \<le> i \<and> i < Suc c + n'
             then (?dk1 ! i)\<lparr>facingUp := (if r then 94 \<le> i else facingUp (?dk1 ! i) \<or> 94 \<le> i)\<rparr>
             else ?dk1 ! i)"
            using IH \<open>i < length dk\<close> by blast
          show ?thesis
          proof (cases "i = c")
            case True
            with d m \<open>i < length dk\<close> show ?thesis by simp
          next
            case False
            with d m \<open>i < length dk\<close> show ?thesis by (simp add: Suc_le_eq)
          qed
        qed
      next
        fix j assume "j < length ps"
        show "ps' ! j = (if stack \<le> j \<and> j < stack + min (23 - stack) (104 - c)
             then ps ! j @ [c + (j - stack)] else ps ! j)"
        proof -
          have d: "ps' ! j = (if Suc stack \<le> j \<and> j < Suc stack + n'
             then ?ps1 ! j @ [Suc c + (j - Suc stack)] else ?ps1 ! j)"
            using IH \<open>j < length ps\<close> by blast
          have s: "stack < length ps" using st "1.prems"(4) by simp
          show ?thesis
          proof (cases "j = stack")
            case True
            with d m s show ?thesis by (simp add: nth_push_pile)
          next
            case False
            with d m s show ?thesis by (simp add: nth_push_pile Suc_le_eq) linarith
          qed
        qed
      qed
    qed
  qed
qed

lemma filter_mod10_block:
  assumes "c mod 10 = 0" "k < 10" "m \<le> 10"
  shows "filter (\<lambda>x. x mod 10 = k) [c..<c + m] = (if k < m then [c + k] else [])"
  using assms(3)
proof (induction m)
  case 0
  then show ?case by simp
next
  case (Suc m)
  have "(c + m) mod 10 = m" using assms(1) Suc.prems by (simp add: mod_add_left_eq [symmetric])
  with Suc assms(2) show ?case by auto
qed

lemma deal_rows_closed:
  assumes "deal_rows r c dk ps = (dk', ps')" "c mod 10 = 0" "c < 104" "23 \<le> length ps"
  shows "length dk' = length dk \<and>
         (\<forall>i < length dk. dk' ! i =
            (if c \<le> i \<and> i < 104
             then (dk ! i)\<lparr>facingUp := (if r then 94 \<le> i else facingUp (dk ! i) \<or> 94 \<le> i)\<rparr>
             else dk ! i)) \<and>
         length ps' = length ps \<and>
         (\<forall>j < length ps. ps' ! j =
            (if 13 \<le> j \<and> j < 23 then ps ! j @ filter (\<lambda>x. x mod 10 = j - 13) [c..<104] else ps ! j))"
  using assms
proof (induction r c dk ps arbitrary: dk' ps' rule: deal_rows.induct)
  case (1 r c dk ps)
  obtain c1 dk1 ps1 where row: "deal_row r 13 c dk ps = (c1, dk1, ps1)"
    by (cases "deal_row r 13 c dk ps") auto
  define n where "n = min 10 (104 - c)"
  have nle: "n \<le> 10" unfolding n_def by simp
  have R: "c1 = c + n \<and> length dk1 = length dk \<and>
         (\<forall>i < length dk. dk1 ! i =
            (if c \<le> i \<and> i < c + n
             then (dk ! i)\<lparr>facingUp := (if r then 94 \<le> i else facingUp (dk ! i) \<or> 94 \<le> i)\<rparr>
             else dk ! i)) \<and>
         length ps1 = length ps \<and>
         (\<forall>j < length ps. ps1 ! j = (if 13 \<le> j \<and> j < 13 + n then ps ! j @ [c + (j - 13)] else ps ! j))"
    using deal_row_closed [OF row "1.prems"(3) _ "1.prems"(4)] unfolding n_def by simp
  have blk: "filter (\<lambda>x. x mod 10 = j - 13) [c..<c + n] = (if j < 13 + n then [c + (j - 13)] else [])"
    if "13 \<le> j" "j < 23" for j
    using filter_mod10_block [OF "1.prems"(2), of "j - 13" n] that unfolding n_def by auto
  show ?case
  proof (cases "c1 < 104")
    case True
    then have n: "n = 10" and c1: "c1 = c + 10" using R unfolding n_def by auto
    have rec: "deal_rows r c1 dk1 ps1 = (dk', ps')"
      using "1.prems"(1) row True by (simp add: deal_rows.simps)
    have IH: "length dk' = length dk1 \<and>
         (\<forall>i < length dk1. dk' ! i =
            (if c1 \<le> i \<and> i < 104
             then (dk1 ! i)\<lparr>facingUp := (if r then 94 \<le> i else facingUp (dk1 ! i) \<or> 94 \<le> i)\<rparr>
             else dk1 ! i)) \<and>
         length ps' = length ps1 \<and>
         (\<forall>j < length ps1. ps' ! j =
            (if 13 \<le> j \<and> j < 23 then ps1 ! j @ filter (\<lambda>x. x mod 10 = j - 13) [c1..<104] else ps1 ! j))"
      using "1.IH" [OF row [symmetric] refl True rec] "1.prems"(2,4) R c1 True by simp
    have split: "[c..<104] = [c..<c + 10] @ [c + 10..<104]"
      using upt_add_eq_append [of c "c + 10" "104 - (c + 10)"] True c1 by simp
    show ?thesis
    proof (intro conjI allI impI)
      show "length dk' = length dk" "length ps' = length ps" using IH R by simp_all
    next
      fix i assume i: "i < length dk"
      then show "dk' ! i = (if c \<le> i \<and> i < 104
             then (dk ! i)\<lparr>facingUp := (if r then 94 \<le> i else facingUp (dk ! i) \<or> 94 \<le> i)\<rparr>
             else dk ! i)"
        using IH R n c1 \<open>c1 < 104\<close> by (cases "i < c + 10") auto
    next
      fix j assume j: "j < length ps"
      show "ps' ! j = (if 13 \<le> j \<and> j < 23 then ps ! j @ filter (\<lambda>x. x mod 10 = j - 13) [c..<104]
                       else ps ! j)"
      proof (cases "13 \<le> j \<and> j < 23")
        case True
        then show ?thesis using IH R j blk [of j] n c1 split by simp
      next
        case False
        have "ps' ! j = ps1 ! j" using IH R j False by auto
        moreover have "ps1 ! j = ps ! j" using R j False n by simp
        ultimately show ?thesis using False by auto
      qed
    qed
  next
    case False
    then have n: "c + n = 104" using R "1.prems"(3) unfolding n_def by auto
    have res: "dk' = dk1" "ps' = ps1"
      using "1.prems"(1) row False by (simp_all add: deal_rows.simps)
    show ?thesis
    proof (intro conjI allI impI)
      show "length dk' = length dk" "length ps' = length ps" using res R by simp_all
    next
      fix i assume "i < length dk"
      then show "dk' ! i = (if c \<le> i \<and> i < 104
             then (dk ! i)\<lparr>facingUp := (if r then 94 \<le> i else facingUp (dk ! i) \<or> 94 \<le> i)\<rparr>
             else dk ! i)"
        using res R n by simp
    next
      fix j assume j: "j < length ps"
      show "ps' ! j = (if 13 \<le> j \<and> j < 23 then ps ! j @ filter (\<lambda>x. x mod 10 = j - 13) [c..<104]
                       else ps ! j)"
        using res R n nle j blk [of j] by (cases "13 \<le> j \<and> j < 23") auto
    qed
  qed
qed

lemma fold_set_face:
  "length (fold (\<lambda>x dk. set_face dk x b) xs dk) = length dk"
  "i < length dk \<Longrightarrow> fold (\<lambda>x dk. set_face dk x b) xs dk ! i =
     (if i \<in> set xs then (dk ! i)\<lparr>facingUp := b\<rparr> else dk ! i)"
proof -
  show "length (fold (\<lambda>x dk. set_face dk x b) xs dk) = length dk"
    by (induction xs arbitrary: dk) simp_all
  show "i < length dk \<Longrightarrow> fold (\<lambda>x dk. set_face dk x b) xs dk ! i =
     (if i \<in> set xs then (dk ! i)\<lparr>facingUp := b\<rparr> else dk ! i)"
    by (induction xs arbitrary: dk) (auto simp: set_face_nth)
qed

lemma deal_reserve_pile:
  assumes "s < length ps"
  shows "fold (\<lambda>c (dk, ps). (if r then set_face dk (s * 10 + c) False else dk,
                              push_pile ps s (s * 10 + c))) [0..<m] (dk, ps) =
         (if r then fold (\<lambda>x dk. set_face dk x False) [s * 10..<s * 10 + m] dk else dk,
          ps[s := ps ! s @ [s * 10..<s * 10 + m]])"
  using assms
proof (induction m)
  case 0
  then show ?case by simp
next
  case (Suc m)
  then show ?case by (simp add: push_pile_def)
qed

lemma deal_reserves_fold:
  assumes "k \<le> length ps"
  shows "fold (\<lambda>stack. fold (\<lambda>c (dk, ps).
               (if r then set_face dk (stack * 10 + c) False else dk,
                push_pile ps stack (stack * 10 + c))) [0..<10]) [0..<k] (dk, ps) =
         (if r then fold (\<lambda>x dk. set_face dk x False) [0..<k * 10] dk else dk,
          map (\<lambda>j. if j < k then ps ! j @ [j * 10..<j * 10 + 10] else ps ! j) [0..<length ps])"
  using assms
proof (induction k)
  case 0
  then show ?case by (simp add: map_nth)
next
  case (Suc k)
  have up: "[0..<10 + k * 10] = [0..<k * 10] @ [k * 10..<k * 10 + 10]"
    using upt_add_eq_append [of 0 "k * 10" 10] by (simp add: add.commute)
  have upd: "(map (\<lambda>j. if j < k then ps ! j @ [j * 10..<j * 10 + 10] else ps ! j) [0..<length ps])
               [k := ps ! k @ [k * 10..<k * 10 + 10]] =
             map (\<lambda>j. if j < Suc k then ps ! j @ [j * 10..<j * 10 + 10] else ps ! j) [0..<length ps]"
    using Suc.prems by (intro nth_equalityI) (auto simp: nth_list_update)
  show ?case
    using Suc by (simp add: deal_reserve_pile up upd)
qed

lemma deal_layout:
  assumes "deal_reserves r dk (replicate 23 []) = (dk1, ps1)" "deal_rows r 50 dk1 ps1 = (dk2, ps2)"
    and "length dk = 104"
  shows "ps2 = initial_layout \<and> length dk2 = 104 \<and>
         (\<forall>i<104. dk2 ! i = (dk ! i)\<lparr>facingUp := (if r then 94 \<le> i else facingUp (dk ! i) \<or> 94 \<le> i)\<rparr>)"
proof -
  have R: "dk1 = (if r then fold (\<lambda>x dk. set_face dk x False) [0..<5 * 10] dk else dk)"
    "ps1 = map (\<lambda>j. if j < 5 then [j * 10..<j * 10 + 10] else []) [0..<23]"
    using assms(1) deal_reserves_fold [of 5 "replicate 23 []" r dk]
    by (auto simp: deal_reserves_def cong: map_cong)
  have len1: "length dk1 = 104" "length ps1 = 23" using R assms(3) by (simp_all add: fold_set_face)
  have C: "length dk2 = length dk1 \<and>
         (\<forall>i < length dk1. dk2 ! i =
            (if 50 \<le> i \<and> i < 104
             then (dk1 ! i)\<lparr>facingUp := (if r then 94 \<le> i else facingUp (dk1 ! i) \<or> 94 \<le> i)\<rparr>
             else dk1 ! i)) \<and>
         length ps2 = length ps1 \<and>
         (\<forall>j < length ps1. ps2 ! j =
            (if 13 \<le> j \<and> j < 23 then ps1 ! j @ filter (\<lambda>x. x mod 10 = j - 13) [50..<104] else ps1 ! j))"
    using deal_rows_closed [OF assms(2)] len1 by simp
  have "ps2 = initial_layout"
    using C len1 R by (intro nth_equalityI) (auto simp: initial_layout_def)
  moreover have "dk2 ! i = (dk ! i)\<lparr>facingUp := (if r then 94 \<le> i else facingUp (dk ! i) \<or> 94 \<le> i)\<rparr>"
    if "i < 104" for i
    using C len1 R that assms(3) by (cases r) (auto simp: fold_set_face)
  ultimately show ?thesis using C len1 by simp
qed

lemma initial_layout_facts:
  "length initial_layout = 23" "mset (concat initial_layout) = mset [0..<104]"
  "reserve_ok initial_layout" "foundation_ok initial_layout"
  "list_all (\<lambda>p. p \<noteq> [] \<and> 94 \<le> last p \<and> last p < 104) (drop 13 initial_layout)"
  by (simp add: initial_layout_def) code_simp+

lemma initial_layout_tops:
  assumes "13 \<le> j" "j < 23"
  shows "initial_layout ! j \<noteq> [] \<and> 94 \<le> last (initial_layout ! j) \<and> last (initial_layout ! j) < 104"
proof -
  have "drop 13 initial_layout ! (j - 13) = initial_layout ! j"
    using assms initial_layout_facts(1) by simp
  moreover have "j - 13 < length (drop 13 initial_layout)"
    using assms initial_layout_facts(1) by simp
  ultimately show ?thesis
    using initial_layout_facts(5) unfolding list_all_length by metis
qed

lemma new_pack_cards:
  assumes "i < 104"
  shows "card_id (assign_ids (shuffle r (create_cards s)) ! i) = i \<and>
         wf_card (assign_ids (shuffle r (create_cards s)) ! i) \<and>
         \<not> facingUp (assign_ids (shuffle r (create_cards s)) ! i)"
proof -
  have "shuffle r (create_cards s) ! i \<in> set (create_cards s)"
    using assms length_shuffle_create_cards [of r s] set_shuffle_create_cards [of r s]
    by (metis nth_mem)
  then show ?thesis
    using assms create_cards_wf length_shuffle_create_cards [of r s]
    by (simp add: assign_ids_simps wf_card_def)
qed

lemma new_game_layout:
  "\<exists>g'. new_game True sv r g = Inr g' \<and> piles g' = initial_layout \<and> length (deck g') = 104 \<and>
        (\<forall>i<104. card_id (deck g' ! i) = i \<and> wf_card (deck g' ! i) \<and>
                 facingUp (deck g' ! i) = (94 \<le> i)) \<and>
        score g' = 500 \<and> moves g' = [] \<and> \<not> playing g' \<and> howManySuits g' = howManySuitsNext g \<and>
        statWon g' = statWon g \<and> statPlayed g' = statPlayed g \<and> highScores g' = highScores g \<and>
        playerName g' = playerName g \<and> howManySuitsNext g' = howManySuitsNext g"
proof -
  let ?pile = "assign_ids (shuffle r (create_cards (choose_suits (howManySuitsNext g) r)))"
  obtain dk1 ps1 where d1: "deal_reserves False ?pile (replicate 23 []) = (dk1, ps1)"
    by (cases "deal_reserves False ?pile (replicate 23 [])")
  obtain dk2 ps2 where d2: "deal_rows False 50 dk1 ps1 = (dk2, ps2)"
    by (cases "deal_rows False 50 dk1 ps1")
  have len: "length ?pile = 104" by (simp add: assign_ids_simps length_shuffle_create_cards)
  have L: "ps2 = initial_layout \<and> length dk2 = 104 \<and>
         (\<forall>i<104. dk2 ! i = (?pile ! i)\<lparr>facingUp := facingUp (?pile ! i) \<or> 94 \<le> i\<rparr>)"
    using deal_layout [OF d1 d2 len] by simp
  have "new_game True sv r g =
          Inr (g\<lparr>moves := [], piles := ps2, deck := dk2, score := 500, playing := False, howManySuits := howManySuitsNext g\<rparr>)"
    using d1 d2 by (simp add: new_game_def prepare_cards_def new_deal_def)
  moreover have "\<forall>i<104. card_id (dk2 ! i) = i \<and> wf_card (dk2 ! i) \<and> facingUp (dk2 ! i) = (94 \<le> i)"
    using L new_pack_cards by (simp add: wf_card_def)
  ultimately show ?thesis using L by auto
qed

lemma deck_okI:
  "length dk = 104 \<Longrightarrow> (\<And>i. i < 104 \<Longrightarrow> card_id (dk ! i) = i \<and> wf_card (dk ! i)) \<Longrightarrow> deck_ok dk"
  by (simp add: deck_ok_def list_all_iff)

lemma layout_inv:
  assumes "piles g = initial_layout" "length (deck g) = 104"
    and "\<And>i. i < 104 \<Longrightarrow> card_id (deck g ! i) = i \<and> wf_card (deck g ! i) \<and> facingUp (deck g ! i) = (94 \<le> i)"
  shows "game_inv g"
proof -
  have "tops_up (deck g) (piles g)"
    using initial_layout_tops assms unfolding tops_up_def list_all_iff by auto
  moreover have "deck_ok (deck g)" using assms(2,3) by (intro deck_okI) simp_all
  ultimately show ?thesis using initial_layout_facts(1-4) assms(1) by (simp add: game_inv_def)
qed

lemma new_game_ok:
  "\<exists>g'. new_game True sv r g = Inr g' \<and> game_inv g' \<and> piles g' = initial_layout \<and>
        score g' = 500 \<and> moves g' = [] \<and> \<not> playing g' \<and>
        statWon g' = statWon g \<and> statPlayed g' = statPlayed g \<and> highScores g' = highScores g \<and>
        howManySuits g' = howManySuitsNext g \<and> playerName g' = playerName g \<and>
        howManySuitsNext g' = howManySuitsNext g"
proof -
  obtain g' where g': "new_game True sv r g = Inr g'" "piles g' = initial_layout"
    "length (deck g') = 104"
    "\<forall>i<104. card_id (deck g' ! i) = i \<and> wf_card (deck g' ! i) \<and> facingUp (deck g' ! i) = (94 \<le> i)"
    "score g' = 500" "moves g' = []" "\<not> playing g'"
    "statWon g' = statWon g" "statPlayed g' = statPlayed g" "highScores g' = highScores g"
    "howManySuits g' = howManySuitsNext g" "playerName g' = playerName g"
    "howManySuitsNext g' = howManySuitsNext g"
    using new_game_layout [of sv r g] by blast
  have "game_inv g'" using g'(2-4) by (intro layout_inv) simp_all
  then show ?thesis using g' by blast
qed

lemma initial_layout_shape:
  "map length initial_layout = [10, 10, 10, 10, 10, 0, 0, 0, 0, 0, 0, 0, 0, 6, 6, 6, 6, 5, 5, 5, 5, 5, 5]"
  "last ` set (drop 13 initial_layout) = {94..<104}"
  by code_simp+

lemma restore_layout:
  assumes "length arr = 104" "length (piles g) \<le> 23"
  shows "\<exists>dk. restore_game True r arr g =
           Inr (g\<lparr>moves := [], deck := dk, score := 500, piles := initial_layout, playing := True,
                  howManySuits := count_suits dk, howManySuitsNext := count_suits dk\<rparr>) \<and>
         length dk = 104 \<and> (\<forall>i<104. dk ! i = (arr ! i)\<lparr>facingUp := 94 \<le> i\<rparr>)"
proof -
  obtain dk1 ps1 where d1: "deal_reserves True arr (replicate 23 []) = (dk1, ps1)"
    by (cases "deal_reserves True arr (replicate 23 [])")
  obtain dk2 ps2 where d2: "deal_rows True 50 dk1 ps1 = (dk2, ps2)"
    by (cases "deal_rows True 50 dk1 ps1")
  have L: "ps2 = initial_layout \<and> length dk2 = 104 \<and> (\<forall>i<104. dk2 ! i = (arr ! i)\<lparr>facingUp := 94 \<le> i\<rparr>)"
    using deal_layout [OF d1 d2 assms(1)] by simp
  have l0: "length (ps2 ! 0) = 10" using L by (simp add: initial_layout_def)
  have "restore_game True r arr g =
          Inr (g\<lparr>moves := [], deck := dk2, score := 500, piles := ps2, playing := True,
                 howManySuits := count_suits dk2, howManySuitsNext := count_suits dk2\<rparr>)"
    using d1 d2 assms L l0 initial_layout_facts(1)
    by (simp add: restore_game_def new_game_def prepare_cards_def read_game_def save_game_def load_game_def)
  then show ?thesis using L by blast
qed

lemma initial_layout_draggable:
  assumes "piles g = initial_layout"
  shows "can_drag g 94"
proof -
  have "initial_layout ! 17 = [54, 64, 74, 84, 94]" by code_simp
  then have col: "piles g ! 17 = [54, 64, 74, 84, 94]" using assms by simp
  have "94 \<in> set (drag_run (deck g) (rev (piles g ! 17)))" by (simp add: col)
  moreover have "17 \<in> set [13..<length (piles g)]" using assms initial_layout_facts(1) by simp
  ultimately show ?thesis unfolding can_drag_def list_ex_iff by blast
qed

lemma new_deal_fresh:
  assumes "piles g = []" "piles g' = []" "howManySuitsNext g = howManySuitsNext g'"
  shows "\<exists>h h'. new_deal r g = Inr h \<and> new_deal r g' = Inr h' \<and> deck h = deck h' \<and> piles h = piles h'"
  using assms by (simp add: new_deal_def Let_def split: prod.split)

text \<open>C27: Without \<open>localStorage\<close> the restore button discards the deck it
  was given: \<open>newGame(false)\<close> finds no saved game and deals a new random
  game, the same one a plain \<open>newGame()\<close> would deal.\<close>

theorem restore_without_storage:
  assumes "length arr = 104"
  shows "\<exists>g1 g2. restore_game False r arr g = Inr g1 \<and> new_game True None r g = Inr g2 \<and>
                 deck g1 = deck g2 \<and> piles g1 = piles g2"
proof -
  obtain dk1 ps1 where d1: "deal_reserves True arr (replicate 23 [] @ drop 23 (piles g)) = (dk1, ps1)"
    by (cases "deal_reserves True arr (replicate 23 [] @ drop 23 (piles g))")
  obtain dk2 ps2 where d2: "deal_rows True 50 dk1 ps1 = (dk2, ps2)"
    by (cases "deal_rows True 50 dk1 ps1")
  have "restore_game False r arr g =
      new_deal r (g\<lparr>howManySuits := count_suits dk2, moves := [], piles := [], deck := [], score := 500,
                      playing := False\<rparr>)"
    using assms d1 d2 by (simp add: restore_game_def new_game_def prepare_cards_def read_game_def)
  moreover have "new_game True None r g =
      new_deal r (g\<lparr>moves := [], piles := [], deck := [], score := 500, playing := False\<rparr>)"
    by (simp add: new_game_def prepare_cards_def)
  ultimately show ?thesis
    using new_deal_fresh [of "g\<lparr>howManySuits := count_suits dk2, moves := [], piles := [], deck := [],
                                 score := 500, playing := False\<rparr>"
                             "g\<lparr>moves := [], piles := [], deck := [], score := 500, playing := False\<rparr>" r]
    by simp
qed

theorem restore_without_storage_witness:
  "\<exists>g1 g2. restore_game False \<lparr>red_low = True, black_low = True, one_suit = 0, swap_draw = (\<lambda>k. (k, 7 * k))\<rparr>
          (replicate 104 \<lparr>suit = Suit_s, card_value = ''A'', hierarchy = 0, facingUp = False, card_id = 0\<rparr>)
          (initial_game 0) = Inr g1 \<and>
        new_game True None \<lparr>red_low = True, black_low = True, one_suit = 0, swap_draw = (\<lambda>k. (k, 7 * k))\<rparr>
          (initial_game 0) = Inr g2 \<and> deck g1 = deck g2 \<and> piles g1 = piles g2"
  by (rule restore_without_storage) simp

text \<open>C3: A new game (\<open>newGame()\<close>) deals a state that satisfies the invariant
  \<open>game_inv\<close>, with score 500, an empty log, \<open>playing\<close> false and the level
  \<open>howManySuitsNext\<close> chosen in the menu, whatever the random draws and the state it starts from.\<close>

theorem new_game_inv:
  "\<exists>g'. new_game True sv r g = Inr g' \<and> game_inv g' \<and> score g' = 500 \<and> moves g' = [] \<and>
        \<not> playing g' \<and> howManySuits g' = howManySuitsNext g"
proof -
  obtain g' where g': "new_game True sv r g = Inr g'" "piles g' = initial_layout"
    "length (deck g') = 104"
    "\<forall>i<104. card_id (deck g' ! i) = i \<and> wf_card (deck g' ! i) \<and> facingUp (deck g' ! i) = (94 \<le> i)"
    "score g' = 500" "moves g' = []" "\<not> playing g'" "howManySuits g' = howManySuitsNext g"
    using new_game_layout [of sv r g] by blast
  have "game_inv g'" using g'(2-4) by (intro layout_inv) simp_all
  with g' show ?thesis by blast
qed

text \<open>C4: The layout of a new game: reserve piles of ten cards, empty
  foundations, columns 13 to 16 of six cards and 17 to 22 of five, and the
  face-up cards are exactly the ten cards on top of the columns.\<close>

theorem new_game_shape:
  "\<exists>g'. new_game True sv r g = Inr g' \<and>
        map length (piles g') = [10, 10, 10, 10, 10, 0, 0, 0, 0, 0, 0, 0, 0, 6, 6, 6, 6, 5, 5, 5, 5, 5, 5] \<and>
        {i \<in> {..<104}. facingUp (deck g' ! i)} = last ` set (drop 13 (piles g'))"
proof -
  obtain g' where g': "new_game True sv r g = Inr g'" "piles g' = initial_layout"
    "\<forall>i<104. facingUp (deck g' ! i) = (94 \<le> i)"
    using new_game_layout [of sv r g] by blast
  moreover have "{i \<in> {..<104}. facingUp (deck g' ! i)} = {94..<104::nat}"
    using g'(3) by auto
  ultimately show ?thesis using initial_layout_shape by auto
qed

text \<open>C6: Restoring a saved deck of 104 cards whose ids are their
  positions and whose face values name their ranks (with \<open>localStorage\<close>)
  lays out a game that satisfies the invariant, under way, with an empty log
  and score 500.\<close>

theorem restore_game_inv:
  assumes "length arr = 104" "\<forall>i<104. card_id (arr ! i) = i \<and> wf_card (arr ! i)"
    and "length (piles g) \<le> 23"
  shows "\<exists>g'. restore_game True r arr g = Inr g' \<and> game_inv g' \<and> playing g' \<and>
              moves g' = [] \<and> score g' = 500"
proof -
  obtain dk where dk: "restore_game True r arr g =
           Inr (g\<lparr>moves := [], deck := dk, score := 500, piles := initial_layout, playing := True,
                  howManySuits := count_suits dk, howManySuitsNext := count_suits dk\<rparr>)"
    "length dk = 104" "\<forall>i<104. dk ! i = (arr ! i)\<lparr>facingUp := 94 \<le> i\<rparr>"
    using restore_layout [OF assms(1,3)] by blast
  have "game_inv (g\<lparr>moves := [], deck := dk, score := 500, piles := initial_layout, playing := True,
                  howManySuits := count_suits dk, howManySuitsNext := count_suits dk\<rparr>)"
    using dk(2,3) assms(2) by (intro layout_inv) simp_all
  with dk(1) show ?thesis by auto
qed

theorem restore_game_inv_witness:
  "\<exists>g'. restore_game True \<lparr>red_low = True, black_low = True, one_suit = 0, swap_draw = (\<lambda>k. (0, 0))\<rparr>
          (map (\<lambda>i. \<lparr>suit = Suit_s, card_value = card_values ! (i mod 13), hierarchy = i mod 13,
                    facingUp = False, card_id = i\<rparr>) [0..<104]) (initial_game 0) = Inr g' \<and>
        game_inv g' \<and> playing g' \<and> moves g' = [] \<and> score g' = 500"
  by (rule restore_game_inv) (simp_all add: initial_game_def wf_card_def)

text \<open>C20: The save string round trip: decoding the string the save dialog
  shows gives back the JSON text exactly when that text has no \<open>'@'\<close>
  (JSON of a deck never has one; an \<open>'@'\<close> would come back as a space).\<close>

theorem save_string_roundtrip: "restore_decode (save_encode s) = s \<longleftrightarrow> CHR ''@'' \<notin> set s"
  by (induction s) (auto simp: save_encode_def restore_decode_def)

text \<open>C28: The load branch of \<open>prepareCards\<close> always resumes play: pile 0
  is a reserve pile of 0 or 10 cards, never 13, so the test meant to detect a
  completed game never fires.\<close>

theorem load_game_playing:
  assumes "reserve_ok (piles g)"
  shows "playing (load_game g)"
proof -
  have "\<forall>i\<in>set [0..<5]. piles g ! i = [] \<or> length (piles g ! i) = 10"
    using assms by (simp add: reserve_ok_def list_all_iff)
  then have "piles g ! 0 = [] \<or> length (piles g ! 0) = 10" by simp
  then show ?thesis by (auto simp: load_game_def)
qed

theorem load_game_playing_witness:
  "reserve_ok initial_layout \<and> playing (load_game ((initial_game 0)\<lparr>piles := initial_layout\<rparr>))"
  using load_game_playing [of "(initial_game 0)\<lparr>piles := initial_layout\<rparr>"] by code_simp

end
