(* ===== verification/Removal.thy ===== *)
theory Removal
  imports HighScores Layout
begin

text \<open>
  The run-removal engine, \<open>checkAndDoRemove\<close> of
  \<open>src/V2/ssjs/spider-solitaire.js\<close>.  It first finds the lowest empty
  foundation (\<open>spareHome\<close>, piles 5 to 12, \<open>-2\<close> if there is none), then
  scans the columns 13 to 22 in order.  A column whose top card is a face-up
  ace with twelve face-up cards of the same suit and increasing rank below it
  loses these 13 cards to \<open>piles[spareHome]\<close>; the score gains 100, the card
  uncovered is turned up, a removal record is pushed and \<open>spareHome\<close>
  moves to the next pile.  If \<open>spareHome\<close> reaches 13 the game is won:
  the statistics are updated, \<open>playing\<close> is cleared and the high-score
  table is updated; the menu it then opens, \<open>showMenu(score)\<close>, deals a
  new game at once (\<open>won_menu\<close>), and \<open>false\<close> is returned.

  Lemmas: the walk down the column decides exactly the declarative "the top
  13 cards are a face-up same-suit run from king to ace"; a removal moves the
  13 cards to the foundation, adds 100 points and logs the removal; a win
  happens exactly when the scan fills pile 12, and never while every column
  holds a card; the scan keeps the invariant, the reserves and the typing of
  the log.
\<close>

subsection \<open>Definitions\<close>

text \<open>\<open>for (stack = 5; stack < 13; stack++) if (piles[stack].length == 0)
  {spareHome = stack; break;}\<close>, with \<open>spareHome = -2\<close> before the loop.\<close>

function first_empty_home :: "piles \<Rightarrow> nat \<Rightarrow> int" where
  "first_empty_home ps stack =
     (if stack < 13 then (if ps ! stack = [] then int stack else first_empty_home ps (Suc stack))
      else -2)"
  by pat_completeness auto
termination
  by (relation "measure (\<lambda>(ps, stack). 13 - stack)") auto

definition spare_home :: "piles \<Rightarrow> int" where
  "spare_home ps = first_empty_home ps 5"

text \<open>The inner loop \<open>for (card = 1; card < 13; card++)\<close> reading
  \<open>tempCard = pile[pile.length - 1 - card]\<close> and breaking at the first card
  that is face down, of another suit than the ace, or not one rank above
  \<open>cardAbove\<close>; the value of \<open>card\<close> after the loop.\<close>

function run_walk :: "card list \<Rightarrow> pile \<Rightarrow> card \<Rightarrow> card \<Rightarrow> nat \<Rightarrow> nat" where
  "run_walk dk p topCard cardAbove k =
     (if k < 13 then
        (let tempCard = dk ! (p ! (length p - 1 - k)) in
         if \<not> facingUp tempCard \<or> suit tempCard \<noteq> suit topCard
            \<or> hierarchy tempCard \<noteq> hierarchy cardAbove + 1
         then k else run_walk dk p topCard tempCard (Suc k))
      else k)"
  by pat_completeness auto
termination
  by (relation "measure (\<lambda>(dk, p, t, a, k). 13 - k)") auto

text \<open>The test of one column: at least 13 cards, a face-up \<open>'A'\<close> on top,
  and the walk reaches \<open>card == 13\<close>.\<close>

definition full_suit_on_top :: "card list \<Rightarrow> pile \<Rightarrow> bool" where
  "full_suit_on_top dk p \<longleftrightarrow>
     13 \<le> length p \<and> card_value (dk ! last p) = ''A'' \<and> facingUp (dk ! last p)
     \<and> run_walk dk p (dk ! last p) (dk ! last p) 1 = 13"

text \<open>The removal from column \<open>stack\<close>: \<open>splice(length - 13, 13)\<close>, the
  concatenation onto \<open>piles[spareHome]\<close> (a \<open>TypeError\<close> when that pile
  does not exist: \<open>spareHome = -2\<close>), 100 points, the card uncovered turned
  up, and \<open>recordMove(-2, stack, spareHome, turned)\<close>.\<close>

definition remove_run :: "game \<Rightarrow> nat \<Rightarrow> int \<Rightarrow> error + game" where
  "remove_run g stack spare =
     (let (hand, ps1) = js_splice (piles g) stack (int (length (piles g ! stack)) - 13) 13 in
      if spare < 0 \<or> int (length (piles g)) \<le> spare then Inl TypeError
      else
        (let ps2 = concat_onto ps1 (nat spare) hand;
             (dk, turned) = turn_up_top (deck g) (ps2 ! stack)
         in Inr (record_move (g\<lparr>piles := ps2, deck := dk, score := score g + 100\<rparr>)
                   (RemovalMove stack (nat spare) turned))))"

text \<open>The scan \<open>for (stack = 13; stack < 23; stack++)\<close>; \<open>spareHome++\<close>
  after each removal.  The result carries the final \<open>spareHome\<close>.\<close>

function scan_columns :: "nat \<Rightarrow> int \<Rightarrow> game \<Rightarrow> error + (game \<times> int)" where
  "scan_columns stack spare g =
     (if stack < 23 then
        (if full_suit_on_top (deck g) (piles g ! stack) then
           (case remove_run g stack spare of
              Inl e \<Rightarrow> Inl e
            | Inr g' \<Rightarrow> scan_columns (Suc stack) (spare + 1) g')
         else scan_columns (Suc stack) spare g)
      else Inr (g, spare))"
  by pat_completeness auto
termination
  by (relation "measure (\<lambda>(stack, spare, g). 23 - stack)") auto

text \<open>The end of a won game: \<open>statPlayed++\<close>, \<open>statWon++\<close>,
  \<open>playing = false\<close>, \<open>highScoreCheck()\<close>.\<close>

definition game_won :: "game \<Rightarrow> game" where
  "game_won g =
     high_score_check (g\<lparr>statPlayed := statPlayed g + 1, statWon := statWon g + 1, playing := False\<rparr>)"

text \<open>\<open>showMenu(theirScore)\<close> with a score, as \<open>checkAndDoRemove\<close> calls
  it after a win: \<open>ssObj.newGame()\<close> deals a new game (the rest of
  \<open>showMenu\<close> builds the dialog).  \<open>r\<close> holds the values \<open>Math.random\<close>
  gives for that deal.\<close>

definition won_menu :: "draws \<Rightarrow> game \<Rightarrow> error + game" where
  "won_menu r g = new_game True None r g"

text \<open>\<open>checkAndDoRemove\<close>: the new state and whether the game is still being
  played (\<open>false\<close> after a win, once \<open>showMenu\<close> has dealt the next game;
  \<open>saveGame\<close> only writes to \<open>localStorage\<close>).\<close>

definition check_and_do_remove :: "draws \<Rightarrow> game \<Rightarrow> error + (game \<times> bool)" where
  "check_and_do_remove r g =
     (case scan_columns 13 (spare_home (piles g)) g of
        Inl e \<Rightarrow> Inl e
      | Inr (g', spare) \<Rightarrow>
          if spare = 13 then
            (case won_menu r (game_won g') of Inl e \<Rightarrow> Inl e | Inr g'' \<Rightarrow> Inr (g'', False))
          else Inr (g', True))"

text \<open>The card \<open>j\<close> places below the top of a pile.\<close>

definition card_below_top :: "card list \<Rightarrow> pile \<Rightarrow> nat \<Rightarrow> card" where
  "card_below_top dk p j = dk ! (p ! (length p - 1 - j))"

text \<open>What the walk is meant to find: the top 13 cards, read from the top,
  are face up, of the top card's suit, and of ranks 0 (ace) to 12 (king).\<close>

definition complete_run :: "card list \<Rightarrow> pile \<Rightarrow> bool" where
  "complete_run dk p \<longleftrightarrow>
     13 \<le> length p \<and>
     list_all (\<lambda>j. facingUp (card_below_top dk p j) \<and>
                     suit (card_below_top dk p j) = suit (dk ! last p) \<and>
                     hierarchy (card_below_top dk p j) = j) [0..<13]"

text \<open>The invariant of the walk: the cards \<open>k\<close> to \<open>j\<close> below the top
  continue the run that \<open>cardAbove\<close> ends.\<close>

definition walk_ok :: "card list \<Rightarrow> pile \<Rightarrow> card \<Rightarrow> card \<Rightarrow> nat \<Rightarrow> nat \<Rightarrow> bool" where
  "walk_ok dk p t a k j \<longleftrightarrow>
     facingUp (card_below_top dk p j) \<and> suit (card_below_top dk p j) = suit t \<and>
     hierarchy (card_below_top dk p j) = hierarchy a + (j + 1 - k)"

text \<open>The number of full foundations, counted from pile 5 up to the first
  empty one.\<close>

definition full_homes :: "piles \<Rightarrow> nat" where
  "full_homes ps = length (takeWhile (\<lambda>i. ps ! i \<noteq> []) [5..<13])"

text \<open>What \<open>spareHome\<close> is during the scan: the pile after the full
  foundations, or \<open>-2\<close> when all eight were full before the scan began.\<close>

definition spare_ok :: "piles \<Rightarrow> int \<Rightarrow> bool" where
  "spare_ok ps sp \<longleftrightarrow> sp = int (5 + full_homes ps) \<or> (sp = -2 \<and> full_homes ps = 8)"

subsection \<open>Lemmas\<close>

declare first_empty_home.simps [simp del] run_walk.simps [simp del] scan_columns.simps [simp del]

lemma card_values_ace: "h < 13 \<Longrightarrow> card_values ! h = ''A'' \<longleftrightarrow> h = 0"
proof (cases h)
  case 0
  then show ?thesis by (simp add: card_values_def)
next
  case (Suc h')
  assume "h < 13"
  then have "card_values ! h \<in> set (tl card_values)"
    using Suc by (simp add: card_values_def del: list.set)
  moreover have "''A'' \<notin> set (tl card_values)"
    by (simp add: card_values_def)
  ultimately show ?thesis using Suc by auto
qed

lemma run_walk_eq_13:
  "run_walk dk p t a k = 13 \<longleftrightarrow> k \<le> 13 \<and> (\<forall>j. k \<le> j \<and> j < 13 \<longrightarrow> walk_ok dk p t a k j)"
proof (induction dk p t a k rule: run_walk.induct)
  case (1 dk p t a k)
  let ?c = "card_below_top dk p k"
  show ?case
  proof (cases "k < 13")
    case False
    then show ?thesis by (subst run_walk.simps) auto
  next
    case True
    show ?thesis
    proof (cases "\<not> facingUp ?c \<or> suit ?c \<noteq> suit t \<or> hierarchy ?c \<noteq> hierarchy a + 1")
      case stop: True
      have "run_walk dk p t a k = k"
        using True stop by (subst run_walk.simps) (simp add: card_below_top_def)
      moreover have "\<not> walk_ok dk p t a k k"
        using stop by (simp add: walk_ok_def)
      ultimately show ?thesis using True by auto
    next
      case go: False
      have rec: "run_walk dk p t a k = run_walk dk p t ?c (Suc k)"
        using True go by (subst run_walk.simps) (simp add: card_below_top_def)
      have IH: "run_walk dk p t ?c (Suc k) = 13 \<longleftrightarrow>
         Suc k \<le> 13 \<and> (\<forall>j. Suc k \<le> j \<and> j < 13 \<longrightarrow> walk_ok dk p t ?c (Suc k) j)"
        using "1.IH" [OF True refl] go by (simp add: card_below_top_def)
      have step: "walk_ok dk p t ?c (Suc k) j = walk_ok dk p t a k j" if "Suc k \<le> j" for j
        using go that by (simp add: walk_ok_def Suc_diff_le)
      have here: "walk_ok dk p t a k k"
        using go by (simp add: walk_ok_def)
      have "(\<forall>j. Suc k \<le> j \<and> j < 13 \<longrightarrow> walk_ok dk p t ?c (Suc k) j) \<longleftrightarrow>
            (\<forall>j. k \<le> j \<and> j < 13 \<longrightarrow> walk_ok dk p t a k j)"
      proof (intro iffI allI impI)
        fix j
        assume L: "\<forall>j. Suc k \<le> j \<and> j < 13 \<longrightarrow> walk_ok dk p t ?c (Suc k) j"
          and j: "k \<le> j \<and> j < 13"
        show "walk_ok dk p t a k j"
        proof (cases "j = k")
          case True
          with here show ?thesis by simp
        next
          case False
          with j have "Suc k \<le> j" by simp
          with L j step show ?thesis by simp
        qed
      next
        fix j
        assume R: "\<forall>j. k \<le> j \<and> j < 13 \<longrightarrow> walk_ok dk p t a k j"
          and j: "Suc k \<le> j \<and> j < 13"
        with step show "walk_ok dk p t ?c (Suc k) j" by simp
      qed
      with rec IH True show ?thesis by simp
    qed
  qed
qed

lemma card_below_top_0: "p \<noteq> [] \<Longrightarrow> card_below_top dk p 0 = dk ! last p"
  by (simp add: card_below_top_def last_conv_nth)

text \<open>C17: the column test of \<open>checkAndDoRemove\<close> (a face-up \<open>'A'\<close> on top and
  the walk over the twelve cards below it) holds exactly when the top 13 cards
  are face up, of one suit, and of ranks ace to king from the top down, for a
  top card whose face value names its rank.\<close>

theorem full_suit_on_top_iff:
  assumes wf: "wf_card (dk ! last p)"
  shows "full_suit_on_top dk p \<longleftrightarrow> complete_run dk p"
proof (cases "13 \<le> length p")
  case False
  then show ?thesis by (simp add: full_suit_on_top_def complete_run_def)
next
  case True
  let ?t = "dk ! last p"
  have ne: "p \<noteq> []" using True by auto
  have ace: "card_value ?t = ''A'' \<longleftrightarrow> hierarchy ?t = 0"
    using wf card_values_ace by (simp add: wf_card_def)
  have full: "full_suit_on_top dk p \<longleftrightarrow>
      hierarchy ?t = 0 \<and> facingUp ?t \<and> (\<forall>j. 1 \<le> j \<and> j < 13 \<longrightarrow> walk_ok dk p ?t ?t 1 j)"
    using True ace run_walk_eq_13 [of dk p ?t ?t 1] by (auto simp: full_suit_on_top_def)
  have cr: "complete_run dk p \<longleftrightarrow>
      (\<forall>j<13. facingUp (card_below_top dk p j) \<and> suit (card_below_top dk p j) = suit ?t \<and>
               hierarchy (card_below_top dk p j) = j)"
    using True by (auto simp: complete_run_def list_all_iff)
  show ?thesis
  proof
    assume f: "full_suit_on_top dk p"
    show "complete_run dk p"
      unfolding cr
    proof (intro allI impI)
      fix j :: nat assume j: "j < 13"
      show "facingUp (card_below_top dk p j) \<and> suit (card_below_top dk p j) = suit ?t \<and>
            hierarchy (card_below_top dk p j) = j"
      proof (cases "j = 0")
        case True
        with f full ne show ?thesis by (simp add: card_below_top_0)
      next
        case False
        with f full j show ?thesis by (simp add: walk_ok_def)
      qed
    qed
  next
    assume c: "complete_run dk p"
    then have t: "facingUp ?t \<and> hierarchy ?t = 0"
      using cr [THEN iffD1, OF c, rule_format, of 0] ne by (simp add: card_below_top_0)
    have "\<forall>j. 1 \<le> j \<and> j < 13 \<longrightarrow> walk_ok dk p ?t ?t 1 j"
      using cr c t by (simp add: walk_ok_def)
    with t full show "full_suit_on_top dk p" by simp
  qed
qed

lemma js_splice_top13:
  assumes "13 \<le> length (ps ! i)"
  shows "js_splice ps i (int (length (ps ! i)) - 13) 13 = splice_from ps i (length (ps ! i) - 13)"
proof -
  have "js_splice ps i (int (length (ps ! i)) - 13) (int (length (ps ! i)) - (int (length (ps ! i)) - 13)) =
        splice_from ps i (nat (int (length (ps ! i)) - 13))"
    using assms by (intro js_splice_to_end) simp_all
  with assms show ?thesis by (simp add: nat_diff_distrib)
qed

lemma remove_run_Inr:
  assumes "stack < length (piles g)" "13 \<le> length (piles g ! stack)"
    and "0 \<le> spare" "spare < int (length (piles g))"
  shows "remove_run g stack spare =
    (let p = piles g ! stack;
         ps2 = concat_onto ((piles g)[stack := take (length p - 13) p]) (nat spare) (drop (length p - 13) p);
         (dk, turned) = turn_up_top (deck g) (ps2 ! stack)
     in Inr (record_move (g\<lparr>piles := ps2, deck := dk, score := score g + 100\<rparr>)
               (RemovalMove stack (nat spare) turned)))"
  using assms by (simp add: remove_run_def js_splice_top13 splice_from_def Let_def)

theorem full_suit_on_top_iff_witness:
  "wf_card (map (\<lambda>i. \<lparr>suit = Suit_s, card_value = card_values ! (12 - i), hierarchy = 12 - i,
                      facingUp = True, card_id = i\<rparr>) [0..<13] ! last [0..<13]) \<and>
   (full_suit_on_top (map (\<lambda>i. \<lparr>suit = Suit_s, card_value = card_values ! (12 - i), hierarchy = 12 - i,
                      facingUp = True, card_id = i\<rparr>) [0..<13]) [0..<13] \<longleftrightarrow>
    complete_run (map (\<lambda>i. \<lparr>suit = Suit_s, card_value = card_values ! (12 - i), hierarchy = 12 - i,
                      facingUp = True, card_id = i\<rparr>) [0..<13]) [0..<13])"
proof -
  have wf: "wf_card (map (\<lambda>i. \<lparr>suit = Suit_s, card_value = card_values ! (12 - i), hierarchy = 12 - i,
                      facingUp = True, card_id = i\<rparr>) [0..<13] ! last [0..<13])"
    by (simp add: wf_card_def)
  show ?thesis using wf full_suit_on_top_iff [OF wf] by simp
qed

lemma full_homes_le: "full_homes ps \<le> 8"
proof -
  have "length (takeWhile (\<lambda>i. ps ! i \<noteq> []) [5..<13]) \<le> length [5..<13::nat]"
    by (rule length_takeWhile_le)
  then show ?thesis by (simp add: full_homes_def)
qed

lemma takeWhile_upt_nth:
  "j < length (takeWhile P [a..<b]) \<Longrightarrow> P (a + j)"
  by (metis add.commute length_upt less_diff_conv nth_mem nth_upt set_takeWhileD takeWhile_nth
            length_takeWhile_le order.strict_trans2)

lemma full_homes_nonempty:
  assumes "foundation_ok ps" "5 \<le> i" "i < 13"
  shows "ps ! i \<noteq> [] \<longleftrightarrow> i < 5 + full_homes ps"
proof
  assume "i < 5 + full_homes ps"
  then have "i - 5 < length (takeWhile (\<lambda>i. ps ! i \<noteq> []) [5..<13])"
    using assms(2) by (simp add: full_homes_def)
  from takeWhile_upt_nth [OF this] show "ps ! i \<noteq> []"
    using assms(2) by simp
next
  assume ne: "ps ! i \<noteq> []"
  show "i < 5 + full_homes ps"
  proof (rule ccontr)
    assume "\<not> i < 5 + full_homes ps"
    then have n: "full_homes ps < 8" and le: "5 + full_homes ps \<le> i"
      using assms(3) by simp_all
    have "\<not> ps ! ([5..<13] ! full_homes ps) \<noteq> []"
      using nth_length_takeWhile [of "\<lambda>i. ps ! i \<noteq> []" "[5..<13]"] n
      by (simp add: full_homes_def)
    then have empty: "ps ! (5 + full_homes ps) = []"
      using n by simp
    have pre: "\<forall>i\<in>{5..<13}. ps ! i = [] \<longrightarrow> (\<forall>j\<in>{i..<13}. ps ! j = [])"
      using assms(1) by (simp add: foundation_ok_def list_all_iff)
    have "5 + full_homes ps \<in> {5..<13}" using n by simp
    with pre empty le assms(3) ne show False
      by auto
  qed
qed

lemma full_homes_length:
  assumes "foundation_ok ps" "5 \<le> i" "i < 5 + full_homes ps"
  shows "length (ps ! i) = 13"
proof -
  have "i < 13" using assms(3) full_homes_le [of ps] by simp
  with assms full_homes_nonempty [OF assms(1,2)] show ?thesis
    by (auto simp: foundation_ok_def list_all_iff)
qed

lemma full_homes_empty:
  assumes "foundation_ok ps" "5 + full_homes ps \<le> i" "i < 13"
  shows "ps ! i = []"
  using full_homes_nonempty [OF assms(1) _ assms(3)] assms(2) by simp

lemma first_empty_home_eq:
  assumes "foundation_ok ps" "5 \<le> k" "k \<le> 5 + full_homes ps"
  shows "first_empty_home ps k = (if full_homes ps < 8 then int (5 + full_homes ps) else -2)"
  using assms
proof (induction ps k rule: first_empty_home.induct)
  case (1 ps k)
  show ?case
  proof (cases "k < 13")
    case True
    show ?thesis
    proof (cases "ps ! k = []")
      case empty: True
      then have "\<not> k < 5 + full_homes ps"
        using full_homes_nonempty [OF "1.prems"(1,2) True] by simp
      with "1.prems"(3) have "k = 5 + full_homes ps" by simp
      with True empty show ?thesis by (simp add: first_empty_home.simps)
    next
      case False
      then have "Suc k \<le> 5 + full_homes ps"
        using full_homes_nonempty [OF "1.prems"(1,2) True] by simp
      with "1.IH" [OF True False] "1.prems"(1,2) True False show ?thesis
        by (simp add: first_empty_home.simps [of ps k])
    qed
  next
    case False
    with "1.prems"(3) full_homes_le [of ps] have "full_homes ps = 8" by simp
    with False show ?thesis by (simp add: first_empty_home.simps)
  qed
qed

lemma spare_home_ok: "foundation_ok ps \<Longrightarrow> spare_ok ps (spare_home ps)"
  using first_empty_home_eq [of ps 5] full_homes_le [of ps]
  by (auto simp: spare_home_def spare_ok_def)

lemma full_homes_eqI:
  assumes "k \<le> 8" "\<And>i. 5 \<le> i \<Longrightarrow> i < 5 + k \<Longrightarrow> ps ! i \<noteq> []" "k < 8 \<Longrightarrow> ps ! (5 + k) = []"
  shows "full_homes ps = k"
proof -
  have "takeWhile (\<lambda>i. ps ! i \<noteq> []) [5..<13] = take k [5..<13]"
    by (rule takeWhile_eq_take_P_nth) (use assms in auto)
  then show ?thesis using assms(1) by (simp add: full_homes_def)
qed

lemma sum_lengths_le_concat:
  assumes "A \<subseteq> {..<length ps}"
  shows "(\<Sum>i\<in>A. length (ps ! i)) \<le> length (concat ps)"
proof -
  have "length (concat ps) = (\<Sum>i = 0..<length ps. length (ps ! i))"
    by (simp add: length_concat sum_list_sum_nth)
  moreover have "(\<Sum>i\<in>A. length (ps ! i)) \<le> (\<Sum>i = 0..<length ps. length (ps ! i))"
    using assms by (intro sum_mono2) auto
  ultimately show ?thesis by simp
qed

text \<open>When the eight foundations are full they hold all 104 cards, so every
  column is empty; a column of 13 cards or more therefore leaves room for
  it among the foundations.\<close>

lemma won_columns_empty:
  assumes "foundation_ok ps" "length (concat ps) = 104" "full_homes ps = 8" "13 \<le> c" "c < length ps"
  shows "ps ! c = []"
proof -
  let ?A = "insert c {5..<13}"
  have "?A \<subseteq> {..<length ps}" using assms(4,5) by auto
  then have "(\<Sum>i\<in>?A. length (ps ! i)) \<le> 104"
    using sum_lengths_le_concat [of ?A ps] assms(2) by simp
  moreover have "(\<Sum>i\<in>{5..<13}. length (ps ! i)) = 104"
  proof -
    have "(\<Sum>i\<in>{5..<13}. length (ps ! i)) = (\<Sum>i\<in>{5..<13::nat}. 13)"
      using full_homes_length [OF assms(1)] assms(3) by (intro sum.cong) auto
    then show ?thesis by simp
  qed
  ultimately have "length (ps ! c) = 0" using assms(4) by simp
  then show ?thesis by simp
qed

lemma column_leaves_room:
  assumes "foundation_ok ps" "length (concat ps) = 104" "13 \<le> c" "c < length ps"
    and "13 \<le> length (ps ! c)"
  shows "full_homes ps < 8"
proof (rule ccontr)
  assume "\<not> full_homes ps < 8"
  then have "full_homes ps = 8" using full_homes_le [of ps] by simp
  then have "ps ! c = []" using won_columns_empty [OF assms(1,2) _ assms(3,4)] by simp
  with assms(5) show False by simp
qed

lemma foundation_okI:
  assumes k: "k \<le> 8" and full: "\<And>i. 5 \<le> i \<Longrightarrow> i < 5 + k \<Longrightarrow> length (ps ! i) = 13"
    and empty: "\<And>i. 5 + k \<le> i \<Longrightarrow> i < 13 \<Longrightarrow> ps ! i = []"
  shows "foundation_ok ps \<and> full_homes ps = k"
proof
  have ne: "ps ! i \<noteq> []" if "5 \<le> i" "i < 5 + k" for i
  proof
    assume "ps ! i = []"
    with full [OF that] show False by simp
  qed
  have one: "ps ! i = [] \<or> length (ps ! i) = 13" if "5 \<le> i" "i < 13" for i
  proof (cases "i < 5 + k")
    case True
    show ?thesis using full [OF that(1) True] by simp
  next
    case False
    then show ?thesis using empty [of i] that by simp
  qed
  have two: "ps ! j = []" if "5 \<le> i" "ps ! i = []" "i \<le> j" "j < 13" for i j
  proof -
    have "\<not> i < 5 + k" using ne [OF that(1)] that(2) by blast
    then show ?thesis using empty [of j] that(3,4) by simp
  qed
  show "foundation_ok ps"
    unfolding foundation_ok_def list_all_iff
  proof (intro conjI ballI impI)
    fix i assume "i \<in> set [5..<13]"
    then show "ps ! i = [] \<or> length (ps ! i) = 13" using one by simp
  next
    fix i j assume "i \<in> set [5..<13]" "ps ! i = []" "j \<in> set [i..<13]"
    then show "ps ! j = []" using two [of i j] by simp
  qed
  show "full_homes ps = k"
  proof (rule full_homes_eqI [OF k ne])
    show "ps ! (5 + k) = []" if "k < 8" using empty [of "5 + k"] that by simp
  qed
qed

lemma remove_run_inv:
  assumes inv: "game_inv g" and st: "13 \<le> stack" "stack < 23"
    and full: "13 \<le> length (piles g ! stack)" and n: "full_homes (piles g) < 8"
  shows "\<exists>g' turned. remove_run g stack (int (5 + full_homes (piles g))) = Inr g' \<and>
           game_inv g' \<and> full_homes (piles g') = Suc (full_homes (piles g)) \<and>
           (\<forall>j. 13 \<le> j \<and> j < 23 \<and> j \<noteq> stack \<longrightarrow> piles g' ! j = piles g ! j) \<and>
           score g' = score g + 100 \<and>
           moves g' = RemovalMove stack (5 + full_homes (piles g)) turned # moves g"
proof -
  let ?ps = "piles g" and ?n = "full_homes (piles g)"
  let ?p = "?ps ! stack" and ?h = "5 + full_homes (piles g)"
  let ?k = "length ?p - 13"
  define ps2 where "ps2 = concat_onto (?ps[stack := take ?k ?p]) ?h (drop ?k ?p)"
  obtain dk turned where dt: "turn_up_top (deck g) (ps2 ! stack) = (dk, turned)"
    by (cases "turn_up_top (deck g) (ps2 ! stack)")
  define g' where "g' = record_move (g\<lparr>piles := ps2, deck := dk, score := score g + 100\<rparr>)
                          (RemovalMove stack ?h turned)"
  have len: "length ?ps = 23" using inv by (simp add: game_inv_def)
  have fo: "foundation_ok ?ps" using inv by (simp add: game_inv_def)
  have h: "5 \<le> ?h" "?h < 13" "?h \<noteq> stack" using n st by simp_all
  have hempty: "?ps ! ?h = []" using full_homes_empty [OF fo] h by simp
  have nth2: "ps2 ! j = (if j = ?h then drop ?k ?p else if j = stack then take ?k ?p else ?ps ! j)"
    if "j < 23" for j
    using that len h hempty by (simp add: ps2_def concat_onto_def nth_list_update)
  have len2: "length ps2 = 23" using len by (simp add: ps2_def concat_onto_def)
  have run: "remove_run g stack (int ?h) = Inr g'"
    using remove_run_Inr [of stack g "int ?h"] len st full h dt
    by (simp add: g'_def ps2_def Let_def)
  have mset2: "mset (concat ps2) = mset (concat ?ps)"
  proof -
    have a: "mset (concat (?ps[stack := take ?k ?p])) + mset (drop ?k ?p) = mset (concat ?ps)"
      using mset_concat_splice_from [of stack ?ps ?k] len st by (simp add: splice_from_def)
    have b: "mset (concat ps2) = mset (concat (?ps[stack := take ?k ?p])) + mset (drop ?k ?p)"
      using len h hempty by (simp add: ps2_def mset_concat_concat_onto nth_list_update)
    from a b show ?thesis by simp
  qed
  have deck2: "deck_ok dk"
    using inv dt deck_ok_turn_up_top [of "deck g" "ps2 ! stack"] by (simp add: game_inv_def)
  have res2: "reserve_ok ps2"
    using inv nth2 h st by (subst reserve_ok_cong [where ps = ?ps]) (simp_all add: game_inv_def)
  have fh: "foundation_ok ps2 \<and> full_homes ps2 = Suc ?n"
  proof (rule foundation_okI)
    show "Suc ?n \<le> 8" using n by simp
    show "length (ps2 ! i) = 13" if "5 \<le> i" "i < 5 + Suc ?n" for i
      using that nth2 [of i] full h st full_homes_length [OF fo, of i] by (cases "i = ?h") auto
    show "ps2 ! i = []" if "5 + Suc ?n \<le> i" "i < 13" for i
      using that nth2 [of i] h st full_homes_empty [OF fo, of i] by auto
  qed
  then have found2: "foundation_ok ps2" and fh2: "full_homes ps2 = Suc ?n" by simp_all
  have tops2: "tops_up dk ps2"
  proof (rule tops_up_mono [where dk = "deck g" and ps = ?ps])
    show "tops_up (deck g) ?ps" "length ?ps = 23" using inv by (simp_all add: game_inv_def)
    show "\<forall>i<23. \<forall>x\<in>set (?ps ! i). x < length (deck g)"
      using game_inv_ids_all [OF inv] len by simp
    show "facingUp (dk ! x)" if "x < length (deck g)" "facingUp (deck g ! x)" for x
      using turn_up_top_mono [OF that, of "ps2 ! stack"] dt by simp
    show "ps2 ! j = ?ps ! j \<or> facingUp (dk ! last (ps2 ! j))"
      if "13 \<le> j" "j < 23" "ps2 ! j \<noteq> []" for j
    proof (cases "j = stack")
      case True
      have "last (ps2 ! stack) \<in> set (ps2 ! stack)"
        using that True by simp
      then have "last (ps2 ! stack) \<in> set (?ps ! stack)"
        using nth2 [of stack] h st by (auto dest: in_set_takeD)
      then have "last (ps2 ! stack) < length (deck g)"
        using game_inv_ids_all [OF inv] len st by auto
      with that True turn_up_top_last [of "ps2 ! stack" "deck g"] dt show ?thesis by simp
    next
      case False
      with that nth2 [of j] h show ?thesis by auto
    qed
  qed
  have pg: "piles g' = ps2" and sg: "score g' = score g + 100"
    and mg: "moves g' = RemovalMove stack ?h turned # moves g"
    by (simp_all add: g'_def record_move_score)
  have "game_inv g'"
    using len2 mset2 deck2 res2 found2 tops2 inv by (simp add: game_inv_def g'_def)
  moreover have "full_homes (piles g') = Suc ?n" using fh2 pg by simp
  moreover have "\<forall>j. 13 \<le> j \<and> j < 23 \<and> j \<noteq> stack \<longrightarrow> piles g' ! j = ?ps ! j"
    using nth2 h pg by simp
  ultimately show ?thesis
    using run sg mg by (intro exI [of _ g'] exI [of _ turned] conjI) simp_all
qed

lemma game_inv_length_concat: "game_inv g \<Longrightarrow> length (concat (piles g)) = 104"
  unfolding game_inv_def by (metis size_mset length_upt minus_nat.diff_0)

lemma scan_columns_inv:
  assumes "game_inv g" "spare_ok (piles g) spare" "13 \<le> stack"
  shows "\<exists>g' sp'. scan_columns stack spare g = Inr (g', sp') \<and> game_inv g' \<and>
           spare_ok (piles g') sp' \<and> (sp' = -2 \<longleftrightarrow> spare = -2) \<and>
           full_homes (piles g) \<le> full_homes (piles g') \<and>
           score g' = score g + 100 * int (full_homes (piles g') - full_homes (piles g)) \<and>
           (full_homes (piles g') = full_homes (piles g) \<longrightarrow> g' = g \<and> sp' = spare)"
  using assms
proof (induction stack spare g rule: scan_columns.induct)
  case (1 stack spare g)
  show ?case
  proof (cases "stack < 23")
    case False
    then show ?thesis using "1.prems" by (simp add: scan_columns.simps)
  next
    case lt: True
    show ?thesis
    proof (cases "full_suit_on_top (deck g) (piles g ! stack)")
      case False
      with lt "1.IH"(2) [OF lt False] "1.prems" show ?thesis
        by (simp add: scan_columns.simps)
    next
      case True
      have len: "length (piles g) = 23" using "1.prems"(1) by (simp add: game_inv_def)
      have full: "13 \<le> length (piles g ! stack)"
        using True by (simp add: full_suit_on_top_def)
      have n: "full_homes (piles g) < 8"
        using column_leaves_room [OF _ game_inv_length_concat [OF "1.prems"(1)] "1.prems"(3) _ full]
          "1.prems"(1) len lt by (simp add: game_inv_def)
      then have sp: "spare = int (5 + full_homes (piles g))"
        using "1.prems"(2) by (simp add: spare_ok_def)
      obtain g1 turned where
        run: "remove_run g stack spare = Inr g1" and inv1: "game_inv g1"
        and fh1: "full_homes (piles g1) = Suc (full_homes (piles g))"
        and sc1: "score g1 = score g + 100"
        using remove_run_inv [OF "1.prems"(1) "1.prems"(3) lt full n] sp by blast
      have sp1: "spare_ok (piles g1) (spare + 1)" using fh1 sp by (simp add: spare_ok_def)
      obtain g' sp' where
        rec: "scan_columns (Suc stack) (spare + 1) g1 = Inr (g', sp')" and inv': "game_inv g'"
        and ok': "spare_ok (piles g') sp'" and nz: "sp' = -2 \<longleftrightarrow> spare + 1 = -2"
        and mono: "full_homes (piles g1) \<le> full_homes (piles g')"
        and sc': "score g' = score g1 + 100 * int (full_homes (piles g') - full_homes (piles g1))"
        using "1.IH"(1) [OF lt True run inv1 sp1] "1.prems"(3) by auto
      have "scan_columns stack spare g = Inr (g', sp')"
        using lt True run rec by (simp add: scan_columns.simps)
      moreover have "score g' = score g + 100 * int (full_homes (piles g') - full_homes (piles g))"
        using sc' sc1 fh1 mono by simp
      ultimately show ?thesis
        using inv' ok' nz mono fh1 sp by auto
    qed
  qed
qed

lemma scan_columns_emptied:
  assumes "game_inv g" "spare_ok (piles g) spare" "13 \<le> stack"
    and "scan_columns stack spare g = Inr (g', sp')"
  shows "\<forall>i. 13 \<le> i \<and> i < 23 \<and> piles g' ! i = [] \<and> piles g ! i \<noteq> [] \<longrightarrow> 13 \<le> length (piles g ! i)"
  using assms
proof (induction stack spare g rule: scan_columns.induct)
  case (1 stack spare g)
  show ?case
  proof (cases "stack < 23")
    case False
    then show ?thesis using "1.prems"(4) by (simp add: scan_columns.simps)
  next
    case lt: True
    show ?thesis
    proof (cases "full_suit_on_top (deck g) (piles g ! stack)")
      case False
      with lt "1.IH"(2) [OF lt False] "1.prems" show ?thesis
        by (simp add: scan_columns.simps)
    next
      case True
      have len: "length (piles g) = 23" using "1.prems"(1) by (simp add: game_inv_def)
      have full: "13 \<le> length (piles g ! stack)"
        using True by (simp add: full_suit_on_top_def)
      have n: "full_homes (piles g) < 8"
        using column_leaves_room [OF _ game_inv_length_concat [OF "1.prems"(1)] "1.prems"(3) _ full]
          "1.prems"(1) len lt by (simp add: game_inv_def)
      then have sp: "spare = int (5 + full_homes (piles g))"
        using "1.prems"(2) by (simp add: spare_ok_def)
      obtain g1 turned where
        run: "remove_run g stack spare = Inr g1" and inv1: "game_inv g1"
        and fh1: "full_homes (piles g1) = Suc (full_homes (piles g))"
        and same: "\<forall>j. 13 \<le> j \<and> j < 23 \<and> j \<noteq> stack \<longrightarrow> piles g1 ! j = piles g ! j"
        using remove_run_inv [OF "1.prems"(1) "1.prems"(3) lt full n] sp by blast
      have sp1: "spare_ok (piles g1) (spare + 1)" using fh1 sp by (simp add: spare_ok_def)
      have rec: "scan_columns (Suc stack) (spare + 1) g1 = Inr (g', sp')"
        using lt True run "1.prems"(4) by (simp add: scan_columns.simps)
      have IH: "\<forall>i. 13 \<le> i \<and> i < 23 \<and> piles g' ! i = [] \<and> piles g1 ! i \<noteq> [] \<longrightarrow> 13 \<le> length (piles g1 ! i)"
        using "1.IH"(1) [OF lt True run inv1 sp1 _ rec] "1.prems"(3) by simp
      show ?thesis
      proof (intro allI impI)
        fix i assume i: "13 \<le> i \<and> i < 23 \<and> piles g' ! i = [] \<and> piles g ! i \<noteq> []"
        show "13 \<le> length (piles g ! i)"
        proof (cases "i = stack")
          case True
          then show ?thesis using full by simp
        next
          case False
          then have "piles g1 ! i = piles g ! i" using same i by blast
          then show ?thesis using IH i by auto
        qed
      qed
    qed
  qed
qed

lemma game_won_simps [simp]:
  "piles (game_won g) = piles g" "deck (game_won g) = deck g" "score (game_won g) = score g"
  "moves (game_won g) = moves g" "playing (game_won g) = False"
  by (simp_all add: game_won_def high_score_check_def)

lemma game_inv_game_won [simp]: "game_inv (game_won g) = game_inv g"
  by (simp add: game_inv_def)

lemma check_and_do_remove_ok:
  assumes inv: "game_inv g"
  shows "\<exists>g1 sp. scan_columns 13 (spare_home (piles g)) g = Inr (g1, sp) \<and> game_inv g1 \<and>
           score g1 = score g + 100 * int (full_homes (piles g1) - full_homes (piles g)) \<and>
           (if full_homes (piles g) < 8 \<and> full_homes (piles g1) = 8
            then \<exists>g'. check_and_do_remove r g = Inr (g', False) \<and> game_inv g' \<and>
                      score g' = 500 \<and> moves g' = [] \<and> \<not> playing g' \<and> statWon g' = statWon g1 + 1 \<and>
                      highScores g' = highScores (game_won g1)
            else check_and_do_remove r g = Inr (g1, True))"
proof -
  have fo: "foundation_ok (piles g)" using inv by (simp add: game_inv_def)
  obtain g1 sp where
    scan: "scan_columns 13 (spare_home (piles g)) g = Inr (g1, sp)" and inv1: "game_inv g1"
    and ok: "spare_ok (piles g1) sp" and nz: "sp = -2 \<longleftrightarrow> spare_home (piles g) = -2"
    and sc: "score g1 = score g + 100 * int (full_homes (piles g1) - full_homes (piles g))"
    using scan_columns_inv [OF inv spare_home_ok [OF fo], of 13] by auto
  have home: "spare_home (piles g) = -2 \<longleftrightarrow> \<not> full_homes (piles g) < 8"
    using first_empty_home_eq [OF fo, of 5] by (simp add: spare_home_def)
  have won: "sp = 13 \<longleftrightarrow> full_homes (piles g) < 8 \<and> full_homes (piles g1) = 8"
    using ok nz home by (auto simp: spare_ok_def)
  show ?thesis
  proof (cases "sp = 13")
    case True
    obtain g' where g': "new_game True None r (game_won g1) = Inr g'" "game_inv g'" "score g' = 500"
      "moves g' = []" "\<not> playing g'" "statWon g' = statWon (game_won g1)"
      "highScores g' = highScores (game_won g1)"
      using new_game_ok [of None r "game_won g1"] by blast
    have "statWon (game_won g1) = statWon g1 + 1" by (simp add: game_won_def high_score_check_def)
    then show ?thesis using scan inv1 sc won True g'
      by (simp add: check_and_do_remove_def won_menu_def)
  next
    case False
    then have "\<not> (full_homes (piles g) < 8 \<and> full_homes (piles g1) = 8)" using won by simp
    moreover have "check_and_do_remove r g = Inr (g1, True)"
      using scan False by (simp add: check_and_do_remove_def)
    ultimately show ?thesis using scan inv1 sc by simp
  qed
qed

lemma check_and_do_remove_inv_ok:
  assumes inv: "game_inv g"
  shows "\<exists>g' b. check_and_do_remove r g = Inr (g', b) \<and> game_inv g' \<and>
           (b \<longrightarrow> score g' = score g + 100 * int (full_homes (piles g') - full_homes (piles g)) \<and>
                 full_homes (piles g) \<le> full_homes (piles g')) \<and>
           (\<not> b \<longrightarrow> score g' = 500 \<and> moves g' = [] \<and> \<not> playing g')"
proof -
  obtain g1 sp where scan: "scan_columns 13 (spare_home (piles g)) g = Inr (g1, sp)"
    and inv1: "game_inv g1"
    and sc: "score g1 = score g + 100 * int (full_homes (piles g1) - full_homes (piles g))"
    and br: "if full_homes (piles g) < 8 \<and> full_homes (piles g1) = 8
            then \<exists>g'. check_and_do_remove r g = Inr (g', False) \<and> game_inv g' \<and>
                      score g' = 500 \<and> moves g' = [] \<and> \<not> playing g' \<and> statWon g' = statWon g1 + 1 \<and>
                      highScores g' = highScores (game_won g1)
            else check_and_do_remove r g = Inr (g1, True)"
    using check_and_do_remove_ok [OF inv, of r] by blast
  have fo: "foundation_ok (piles g)" using inv by (simp add: game_inv_def)
  have mono: "full_homes (piles g) \<le> full_homes (piles g1)"
    using scan_columns_inv [OF inv spare_home_ok [OF fo], of 13] scan by auto
  show ?thesis
  proof (cases "full_homes (piles g) < 8 \<and> full_homes (piles g1) = 8")
    case True
    then show ?thesis using br by auto
  next
    case False
    then show ?thesis using br inv1 sc mono by auto
  qed
qed

lemma scan_columns_short:
  "(\<forall>i. stack \<le> i \<and> i < 23 \<longrightarrow> length (piles g ! i) < 13) \<Longrightarrow> scan_columns stack spare g = Inr (g, spare)"
proof (induction stack spare g rule: scan_columns.induct)
  case (1 stack spare g)
  have "\<not> full_suit_on_top (deck g) (piles g ! stack)" if "stack < 23"
    using "1.prems" that by (auto simp: full_suit_on_top_def)
  then show ?case using "1.IH"(2) "1.prems" by (simp add: scan_columns.simps)
qed

lemma check_and_do_remove_short:
  assumes "foundation_ok (piles g)" "\<forall>i. 13 \<le> i \<and> i < 23 \<longrightarrow> length (piles g ! i) < 13"
  shows "check_and_do_remove r g = Inr (g, True)"
proof -
  have "spare_home (piles g) \<noteq> 13"
    using first_empty_home_eq [OF assms(1), of 5] full_homes_le [of "piles g"] by (simp add: spare_home_def)
  then show ?thesis using scan_columns_short [OF assms(2)] by (simp add: check_and_do_remove_def)
qed

lemma check_and_do_remove_same:
  assumes inv: "game_inv g" and r: "check_and_do_remove r g = Inr (g', True)"
    and fh: "full_homes (piles g') = full_homes (piles g)"
  shows "g' = g"
proof -
  have fo: "foundation_ok (piles g)" using inv by (simp add: game_inv_def)
  obtain g1 sp where scan: "scan_columns 13 (spare_home (piles g)) g = Inr (g1, sp)"
    and same: "full_homes (piles g1) = full_homes (piles g) \<longrightarrow> g1 = g \<and> sp = spare_home (piles g)"
    using scan_columns_inv [OF inv spare_home_ok [OF fo], of 13] by auto
  have "sp \<noteq> 13" "g' = g1" using r scan by (auto simp: check_and_do_remove_def split: if_splits sum.splits)
  then show ?thesis using same fh by auto
qed

lemma check_and_do_remove_playing:
  assumes inv: "game_inv g" and r: "check_and_do_remove r g = Inr (g', b)" and p: "playing g'"
  shows "b"
  using check_and_do_remove_inv_ok [OF inv, of r] r p by auto

text \<open>With every column holding cards the scan cannot fill the eighth
  foundation: that would need ten runs of 13 cards, 130 cards of 104.\<close>

lemma check_and_do_remove_columns:
  assumes inv: "game_inv g" and cols: "\<forall>i<10. piles g ! (13 + i) \<noteq> []"
  shows "\<exists>g'. check_and_do_remove r g = Inr (g', True) \<and> game_inv g' \<and>
           score g' = score g + 100 * int (full_homes (piles g') - full_homes (piles g))"
proof -
  have fo: "foundation_ok (piles g)" and len: "length (piles g) = 23"
    using inv by (simp_all add: game_inv_def)
  obtain g1 sp where scan: "scan_columns 13 (spare_home (piles g)) g = Inr (g1, sp)"
    and inv1: "game_inv g1"
    and sc: "score g1 = score g + 100 * int (full_homes (piles g1) - full_homes (piles g))"
    and br: "if full_homes (piles g) < 8 \<and> full_homes (piles g1) = 8
            then \<exists>g'. check_and_do_remove r g = Inr (g', False) \<and> game_inv g' \<and>
                      score g' = 500 \<and> moves g' = [] \<and> \<not> playing g' \<and> statWon g' = statWon g1 + 1 \<and>
                      highScores g' = highScores (game_won g1)
            else check_and_do_remove r g = Inr (g1, True)"
    using check_and_do_remove_ok [OF inv, of r] by blast
  have "full_homes (piles g1) \<noteq> 8"
  proof
    assume won: "full_homes (piles g1) = 8"
    have fo1: "foundation_ok (piles g1)" and len1: "length (piles g1) = 23"
      using inv1 by (simp_all add: game_inv_def)
    have big: "13 \<le> length (piles g ! (13 + i))" if "i < 10" for i
    proof -
      have "piles g1 ! (13 + i) = []"
        using won_columns_empty [OF fo1 game_inv_length_concat [OF inv1] won] len1 that by simp
      then show ?thesis
        using scan_columns_emptied [OF inv spare_home_ok [OF fo] _ scan] cols that by simp
    qed
    have sub: "{13..<23} \<subseteq> {..<length (piles g)}" using len by auto
    have "(\<Sum>i\<in>{13..<23}. length (piles g ! i)) \<le> 104"
      using sum_lengths_le_concat [OF sub] game_inv_length_concat [OF inv] by simp
    moreover have "(\<Sum>i\<in>{13..<23::nat}. 13) \<le> (\<Sum>i\<in>{13..<23}. length (piles g ! i))"
    proof (rule sum_mono)
      fix i :: nat assume "i \<in> {13..<23}"
      then have "i - 13 < 10" "13 + (i - 13) = i" by auto
      then show "13 \<le> length (piles g ! i)" using big [of "i - 13"] by simp
    qed
    ultimately show False by simp
  qed
  then show ?thesis using br inv1 sc by simp
qed

text \<open>The scan leaves the reserve piles alone: removals take from columns
  and put on foundations.\<close>

lemma first_empty_home_range:
  "first_empty_home ps k = -2 \<or> int k \<le> first_empty_home ps k"
  by (induction ps k rule: first_empty_home.induct) (auto simp: first_empty_home.simps)

lemma remove_run_keeps:
  assumes "remove_run g stack spare = Inr g1" "i \<noteq> stack" "int i \<noteq> spare"
  shows "piles g1 ! i = piles g ! i"
  using assms
  by (auto simp: remove_run_def js_splice_def concat_onto_def Let_def nth_list_update
           split: prod.splits if_splits)

lemma scan_columns_keeps:
  assumes "scan_columns stack spare g = Inr (g', sp')" "spare < 0 \<or> 5 \<le> spare" "13 \<le> stack" "i < 5"
  shows "piles g' ! i = piles g ! i"
  using assms
proof (induction stack spare g rule: scan_columns.induct)
  case (1 stack spare g)
  show ?case
  proof (cases "stack < 23 \<and> full_suit_on_top (deck g) (piles g ! stack)")
    case True
    then obtain g1 where run: "remove_run g stack spare = Inr g1"
      and rec: "scan_columns (Suc stack) (spare + 1) g1 = Inr (g', sp')"
      using "1.prems"(1) by (auto simp: scan_columns.simps split: sum.splits)
    have "0 \<le> spare" using run by (auto simp: remove_run_def Let_def split: prod.splits if_splits)
    then have sp: "5 \<le> spare" using "1.prems"(2) by simp
    have "piles g1 ! i = piles g ! i"
      using remove_run_keeps [OF run] "1.prems"(3,4) sp by simp
    moreover have "piles g' ! i = piles g1 ! i"
      using "1.IH"(1) [OF _ _ run rec] True sp "1.prems"(3,4) by simp
    ultimately show ?thesis by simp
  next
    case False
    show ?thesis
    proof (cases "stack < 23")
      case True
      then have "scan_columns (Suc stack) spare g = Inr (g', sp')"
        using False "1.prems"(1) by (simp add: scan_columns.simps)
      then show ?thesis using "1.IH"(2) True False "1.prems"(2-4) by simp
    next
      case False
      then show ?thesis using "1.prems"(1) by (simp add: scan_columns.simps)
    qed
  qed
qed

lemma check_and_do_remove_keeps:
  assumes "check_and_do_remove r g = Inr (g', True)" "i < 5"
  shows "piles g' ! i = piles g ! i"
proof -
  obtain g1 sp where scan: "scan_columns 13 (spare_home (piles g)) g = Inr (g1, sp)" and g': "g' = g1"
    using assms(1) by (auto simp: check_and_do_remove_def split: sum.splits if_splits)
  have "spare_home (piles g) < 0 \<or> 5 \<le> spare_home (piles g)"
    using first_empty_home_range [of "piles g" 5] by (auto simp: spare_home_def)
  then show ?thesis using scan_columns_keeps [OF scan _ _ assms(2)] g' by simp
qed

lemma scan_columns_log:
  assumes "game_inv g" "spare_ok (piles g) spare" "13 \<le> stack"
    and "scan_columns stack spare g = Inr (g', sp')" "list_all move_ok (moves g)"
  shows "list_all move_ok (moves g')"
  using assms
proof (induction stack spare g rule: scan_columns.induct)
  case (1 stack spare g)
  show ?case
  proof (cases "stack < 23")
    case False
    then show ?thesis using "1.prems"(4,5) by (simp add: scan_columns.simps)
  next
    case lt: True
    show ?thesis
    proof (cases "full_suit_on_top (deck g) (piles g ! stack)")
      case False
      with lt "1.IH"(2) [OF lt False] "1.prems" show ?thesis
        by (simp add: scan_columns.simps)
    next
      case True
      have len: "length (piles g) = 23" using "1.prems"(1) by (simp add: game_inv_def)
      have full: "13 \<le> length (piles g ! stack)"
        using True by (simp add: full_suit_on_top_def)
      have n: "full_homes (piles g) < 8"
        using column_leaves_room [OF _ game_inv_length_concat [OF "1.prems"(1)] "1.prems"(3) _ full]
          "1.prems"(1) len lt by (simp add: game_inv_def)
      then have sp: "spare = int (5 + full_homes (piles g))"
        using "1.prems"(2) by (simp add: spare_ok_def)
      obtain g1 turned where
        run: "remove_run g stack spare = Inr g1" and inv1: "game_inv g1"
        and fh1: "full_homes (piles g1) = Suc (full_homes (piles g))"
        and mv: "moves g1 = RemovalMove stack (5 + full_homes (piles g)) turned # moves g"
        using remove_run_inv [OF "1.prems"(1) "1.prems"(3) lt full n] sp by blast
      have sp1: "spare_ok (piles g1) (spare + 1)" using fh1 sp by (simp add: spare_ok_def)
      have rec: "scan_columns (Suc stack) (spare + 1) g1 = Inr (g', sp')"
        using lt True run "1.prems"(4) by (simp add: scan_columns.simps)
      have "move_ok (RemovalMove stack (5 + full_homes (piles g)) turned)"
        using "1.prems"(3) lt n by (simp add: move_ok_def)
      then have "list_all move_ok (moves g1)" using mv "1.prems"(5) by simp
      then show ?thesis using "1.IH"(1) [OF lt True run inv1 sp1 _ rec] "1.prems"(3) by simp
    qed
  qed
qed

lemma check_and_do_remove_log:
  assumes inv: "game_inv g" and r: "check_and_do_remove r g = Inr (g', b)" and ok: "log_ok g"
  shows "log_ok g'"
proof -
  have fo: "foundation_ok (piles g)" using inv by (simp add: game_inv_def)
  obtain g1 sp where scan: "scan_columns 13 (spare_home (piles g)) g = Inr (g1, sp)"
    using scan_columns_inv [OF inv spare_home_ok [OF fo], of 13] by auto
  have ok1: "list_all move_ok (moves g1)"
    using scan_columns_log [OF inv spare_home_ok [OF fo] _ scan] ok by (simp add: log_ok_def)
  show ?thesis
  proof (cases "sp = 13")
    case True
    then obtain g4 where "won_menu r (game_won g1) = Inr g4" "g' = g4"
      using r scan by (auto simp: check_and_do_remove_def split: sum.splits)
    moreover have "moves g4 = []" if "won_menu r (game_won g1) = Inr g4" for g4
      using that new_game_ok [of None r "game_won g1"] by (auto simp: won_menu_def)
    ultimately show ?thesis by (simp add: log_ok_def)
  next
    case False
    then have "g' = g1" using r scan by (simp add: check_and_do_remove_def)
    then show ?thesis using ok1 by (simp add: log_ok_def)
  qed
qed

text \<open>C1: From any state satisfying the invariant, \<open>checkAndDoRemove\<close> never
  throws: every completed run finds a free foundation.  The invariant is
  kept and each run moved adds 100 points.  When the scan fills the eighth
  foundation the game is won (played and won counts up, the high-score table
  is updated), \<open>showMenu\<close> deals the next game at once (score 500, empty
  log, not yet under way) and the flag is false; otherwise the flag is true
  and the state is the scanned one.\<close>

theorem check_and_do_remove_inv:
  assumes inv: "game_inv g"
  shows "\<exists>g1 sp. scan_columns 13 (spare_home (piles g)) g = Inr (g1, sp) \<and> game_inv g1 \<and>
           score g1 = score g + 100 * int (full_homes (piles g1) - full_homes (piles g)) \<and>
           (if full_homes (piles g) < 8 \<and> full_homes (piles g1) = 8
            then \<exists>g'. check_and_do_remove r g = Inr (g', False) \<and> game_inv g' \<and>
                      score g' = 500 \<and> moves g' = [] \<and> \<not> playing g' \<and> statWon g' = statWon g1 + 1 \<and>
                      highScores g' = highScores (game_won g1)
            else check_and_do_remove r g = Inr (g1, True))"
  using assms by (rule check_and_do_remove_ok)

text \<open>C8: while every column holds a card, \<open>checkAndDoRemove\<close> cannot
  end the game: a win would need all ten columns emptied by the scan, so ten
  runs of 13 cards, 130 of the 104 cards.  This is why \<open>deal\<close>, after which
  every column holds a card, may ignore the flag it returns (the comment
  at the call).\<close>

theorem no_win_with_full_columns:
  assumes "game_inv g" "\<forall>i<10. piles g ! (13 + i) \<noteq> []"
  shows "\<exists>g'. check_and_do_remove r g = Inr (g', True) \<and> game_inv g' \<and>
           score g' = score g + 100 * int (full_homes (piles g') - full_homes (piles g))"
  using assms by (rule check_and_do_remove_columns)

end
