(* ===== verification/Move.thy ===== *)
theory Move
  imports Removal
begin

text \<open>
  The move validator and executor, \<open>moveCard\<close> of
  \<open>src/V2/ssjs/spider-solitaire.js\<close>.  The drop target is resolved to a
  pile and its top card; the move is legal when the target has no top card
  (a column base was hit) or the moved card is one rank below the top card,
  whatever the suits.  The card and every card above it leave their pile in
  order and are concatenated onto the target; the card uncovered in the
  source is turned up; a transfer record is pushed (one point); the
  run-removal engine runs (with the random draws of the new game a win
  deals).  Lemmas: legality, the exact effect of a legal move on the piles,
  the score and the log, card conservation, the typing of the log.
\<close>

subsection \<open>Definitions\<close>

text \<open>The legality test of the \<open>if\<close>:
  \<open>cardOnTop === undefined || onthemove.hierarchy == cardOnTop.hierarchy - 1\<close>
  (JavaScript numbers, so the subtraction is on \<open>int\<close>).\<close>

definition move_legal :: "card list \<Rightarrow> card \<Rightarrow> nat option \<Rightarrow> bool" where
  "move_legal dk c cardOnTop \<longleftrightarrow>
     cardOnTop = None \<or> int (hierarchy c) = int (hierarchy (dk ! the cardOnTop)) - 1"

text \<open>\<open>moveCard(cardId, tg)\<close>: \<open>Inl TargetNotFound\<close> for the bare
  \<open>return\<close> when the target is in no pile, \<open>Inr (g, False)\<close> for an illegal
  move, \<open>Inr (g', True)\<close> for a move made.  \<open>deck[cardId]\<close> out of range,
  a card in no pile (\<open>piles[-1]\<close>) and a target pile that does not exist
  throw.\<close>

definition move_card :: "draws \<Rightarrow> game \<Rightarrow> nat \<Rightarrow> drop_target \<Rightarrow> error + (game \<times> bool)" where
  "move_card r g cardId tg =
     (case get_pile_dropped_on (piles g) tg of
        None \<Rightarrow> Inl TargetNotFound
      | Some (t, cardOnTop) \<Rightarrow>
          (if length (deck g) \<le> cardId then Inl TypeError
           else
             (let onthemove = deck g ! cardId in
              if move_legal (deck g) onthemove cardOnTop then
                (case find_card (piles g) (card_id onthemove) of
                   None \<Rightarrow> Inl TypeError
                 | Some (s, pos) \<Rightarrow>
                     (let (hand, ps1) = js_splice (piles g) s (int pos) (int (length (piles g ! s)) - int pos)
                      in if length ps1 \<le> t then Inl TypeError
                         else
                           (let ps2 = concat_onto ps1 t hand;
                                (dk, turned) = turn_up_top (deck g) (ps2 ! s);
                                g2 = record_move (g\<lparr>piles := ps2, deck := dk\<rparr>)
                                       (TransferMove (card_id onthemove) s t turned)
                            in (case check_and_do_remove r g2 of
                                  Inl e \<Rightarrow> Inl e
                                | Inr (g3, _) \<Rightarrow> Inr (g3, True)))))
              else Inr (g, False))))"

text \<open>The transfer alone, before the run-removal engine runs: the state
  \<open>checkAndDoRemove\<close> is called on.\<close>

definition transfer :: "game \<Rightarrow> nat \<Rightarrow> nat \<Rightarrow> nat \<Rightarrow> nat \<Rightarrow> game" where
  "transfer g c s pos t =
     (let (hand, ps1) = splice_from (piles g) s pos;
          ps2 = concat_onto ps1 t hand;
          (dk, turned) = turn_up_top (deck g) (ps2 ! s)
      in record_move (g\<lparr>piles := ps2, deck := dk\<rparr>) (TransferMove c s t turned))"

subsection \<open>Lemmas\<close>

lemma transfer_piles:
  assumes "s < length (piles g)" "t < length (piles g)"
  shows "piles (transfer g c s pos t) =
           concat_onto ((piles g)[s := take pos (piles g ! s)]) t (drop pos (piles g ! s))"
    and "deck (transfer g c s pos t) =
           fst (turn_up_top (deck g) (concat_onto ((piles g)[s := take pos (piles g ! s)]) t (drop pos (piles g ! s)) ! s))"
    and "score (transfer g c s pos t) = score g - 1"
    and "moves (transfer g c s pos t) =
           TransferMove c s t (snd (turn_up_top (deck g) (concat_onto ((piles g)[s := take pos (piles g ! s)]) t (drop pos (piles g ! s)) ! s))) # moves g"
  by (simp_all add: transfer_def splice_from_def record_move_score Let_def split: prod.split)


lemma transfer_inv:
  assumes inv: "game_inv g" and s: "13 \<le> s" "s < 23" and t: "13 \<le> t" "t < 23"
    and pos: "pos < length (piles g ! s)"
  shows "game_inv (transfer g c s pos t)"
proof -
  let ?ps = "piles g" and ?p = "piles g ! s"
  define ps2 where "ps2 = concat_onto (?ps[s := take pos ?p]) t (drop pos ?p)"
  define dk where "dk = fst (turn_up_top (deck g) (ps2 ! s))"
  have len: "length ?ps = 23" using inv by (simp add: game_inv_def)
  have P: "piles (transfer g c s pos t) = ps2" "deck (transfer g c s pos t) = dk"
    using transfer_piles [of s g t c pos] len s t by (simp_all add: ps2_def dk_def)
  have nth2: "ps2 ! j = (if j = t then (if t = s then take pos ?p else ?ps ! t) @ drop pos ?p
                         else if j = s then take pos ?p else ?ps ! j)" if "j < 23" for j
    using that len s t by (simp add: ps2_def concat_onto_def nth_list_update)
  have len2: "length ps2 = 23" using len by (simp add: ps2_def concat_onto_def)
  have mset2: "mset (concat ps2) = mset (concat ?ps)"
  proof -
    have "mset (concat (?ps[s := take pos ?p])) + mset (drop pos ?p) = mset (concat ?ps)"
      using mset_concat_splice_from [of s ?ps pos] len s by (simp add: splice_from_def)
    moreover have "mset (concat ps2) = mset (concat (?ps[s := take pos ?p])) + mset (drop pos ?p)"
      using len t by (simp add: ps2_def mset_concat_concat_onto)
    ultimately show ?thesis by simp
  qed
  have low: "ps2 ! i = ?ps ! i" if "i < 13" for i
    using nth2 [of i] that s t by simp
  have tops: "tops_up dk ps2"
  proof (rule tops_up_mono [where dk = "deck g" and ps = ?ps])
    show "tops_up (deck g) ?ps" "length ?ps = 23" using inv len by (simp_all add: game_inv_def)
    show "\<forall>i<23. \<forall>x\<in>set (?ps ! i). x < length (deck g)"
      using game_inv_ids_all [OF inv] len by simp
    show "facingUp (dk ! x)" if "x < length (deck g)" "facingUp (deck g ! x)" for x
      using turn_up_top_mono [OF that] by (simp add: dk_def)
    show "ps2 ! j = ?ps ! j \<or> facingUp (dk ! last (ps2 ! j))"
      if "13 \<le> j" "j < 23" "ps2 ! j \<noteq> []" for j
    proof (cases "j = s")
      case True
      show ?thesis
      proof (cases "s = t")
        case True
        then show ?thesis using \<open>j = s\<close> nth2 [of s] s by simp
      next
        case st: False
        have ne: "ps2 ! s \<noteq> []" using that \<open>j = s\<close> by simp
        have "ps2 ! s = take pos ?p"
          using st nth2 [of s] s by simp
        then have "last (ps2 ! s) \<in> set ?p"
          using ne last_in_set [OF ne] by (metis in_set_takeD)
        then have "last (ps2 ! s) < length (deck g)"
          using game_inv_ids_all [OF inv] len s by auto
        with ne \<open>j = s\<close> show ?thesis using turn_up_top_last [of "ps2 ! s" "deck g"] by (simp add: dk_def)
      qed
    next
      case False
      show ?thesis
      proof (cases "j = t")
        case True
        have ctop: "last (ps2 ! j) = last ?p"
          using True False nth2 [of j] that pos by (simp add: last_drop)
        have "?p \<noteq> []" using pos by auto
        then have "facingUp (deck g ! last ?p)"
          using inv s unfolding game_inv_def tops_up_def list_all_iff by auto
        moreover have "last ?p < length (deck g)"
          using game_inv_ids_all [OF inv] len s \<open>?p \<noteq> []\<close> by auto
        ultimately show ?thesis
          using ctop turn_up_top_mono [of "last ?p" "deck g" "ps2 ! s"] by (simp add: dk_def)
      next
        case False
        then show ?thesis using \<open>j \<noteq> s\<close> nth2 [of j] that by simp
      qed
    qed
  qed
  have "game_inv (g\<lparr>piles := ps2, deck := dk\<rparr>)"
    using inv len2 mset2 tops low deck_ok_turn_up_top [of "deck g" "ps2 ! s"]
          reserve_ok_cong [of ps2 ?ps] foundation_ok_cong [of ps2 ?ps]
    by (simp add: game_inv_def dk_def)
  then show ?thesis using P by (simp add: game_inv_def)
qed

lemma ui_target:
  assumes inv: "game_inv g" and ct: "column_target (piles g) tg"
  shows "\<exists>t ctop. get_pile_dropped_on (piles g) tg = Some (t, ctop) \<and> 13 \<le> t \<and> t < 23"
proof (cases tg)
  case (Base n)
  then show ?thesis using ct by (simp add: get_pile_dropped_on_def column_target_def)
next
  case (OnCard d)
  have len: "length (piles g) = 23" using inv by (simp add: game_inv_def)
  obtain i where i: "13 \<le> i" "i < 23" "d \<in> set (piles g ! i)"
    using ct OnCard by (auto simp: column_target_def list_ex_iff)
  obtain k where k: "k < length (piles g ! i)" "piles g ! i ! k = d"
    using i(3) by (auto simp: in_set_conv_nth)
  have "find_card (piles g) d = Some (i, k)"
    using find_card_unique [OF game_inv_distinct [OF inv]] i k len by simp
  then show ?thesis using OnCard i by (simp add: get_pile_dropped_on_def)
qed

lemma ui_source:
  assumes inv: "game_inv g" and cd: "can_drag g c"
  shows "\<exists>s pos. find_card (piles g) c = Some (s, pos) \<and> 13 \<le> s \<and> s < 23 \<and>
                 pos < length (piles g ! s) \<and> c < length (deck g)"
proof -
  have len: "length (piles g) = 23" using inv by (simp add: game_inv_def)
  obtain i where i: "13 \<le> i" "i < 23" "c \<in> set (piles g ! i)"
    using can_drag_column [OF cd len] by blast
  obtain k where k: "k < length (piles g ! i)" "piles g ! i ! k = c"
    using i(3) by (auto simp: in_set_conv_nth)
  have "find_card (piles g) c = Some (i, k)"
    using find_card_unique [OF game_inv_distinct [OF inv]] i k len by simp
  moreover have "c < length (deck g)" using game_inv_ids_all [OF inv] len i by auto
  ultimately show ?thesis using i k by blast
qed

lemma ui_parts:
  assumes inv: "game_inv g" and ui: "ui_request g c tg"
  obtains t ctop s pos where "get_pile_dropped_on (piles g) tg = Some (t, ctop)" "13 \<le> t" "t < 23"
    "find_card (piles g) c = Some (s, pos)" "13 \<le> s" "s < 23" "pos < length (piles g ! s)"
    "c < length (deck g)"
proof -
  have ct: "column_target (piles g) tg" and cd: "can_drag g c" using ui by (simp_all add: ui_request_def)
  show ?thesis using ui_target [OF inv ct] ui_source [OF inv cd] that by blast
qed

lemma move_card_eq:
  assumes inv: "game_inv g" and tg: "get_pile_dropped_on (piles g) tg = Some (t, ctop)" "t < 23"
    and src: "find_card (piles g) c = Some (s, pos)" "pos < length (piles g ! s)" "c < length (deck g)"
  shows "move_card r g c tg =
           (if move_legal (deck g) (deck g ! c) ctop then
              (case check_and_do_remove r (transfer g c s pos t) of
                 Inl e \<Rightarrow> Inl e | Inr (g3, _) \<Rightarrow> Inr (g3, True))
            else Inr (g, False))"
proof -
  have len: "length (piles g) = 23" "length (deck g) = 104"
    using inv by (simp_all add: game_inv_def deck_ok_def)
  have id: "card_id (deck g ! c) = c"
    using inv src(3) len by (simp add: game_inv_def deck_ok_card)
  have s: "s < length (piles g)" using find_card_Some [OF src(1)] by simp
  have sp: "js_splice (piles g) s (int pos) (int (length (piles g ! s)) - int pos) = splice_from (piles g) s pos"
    using js_splice_to_end [of "int pos" "piles g" s] src(2) by simp
  show ?thesis
    using tg src id sp len
    by (simp add: move_card_def transfer_def splice_from_def Let_def split: prod.split)
qed

lemma move_card_ok:
  assumes inv: "game_inv g" and ui: "ui_request g c tg"
  shows "\<exists>g' b. move_card r g c tg = Inr (g', b) \<and> game_inv g' \<and> (\<not> b \<longrightarrow> g' = g)"
proof -
  have ct: "column_target (piles g) tg" and cd: "can_drag g c" using ui by (simp_all add: ui_request_def)
  obtain t ctop where t: "get_pile_dropped_on (piles g) tg = Some (t, ctop)" "13 \<le> t" "t < 23"
    using ui_target [OF inv ct] by blast
  obtain s pos where s: "find_card (piles g) c = Some (s, pos)" "13 \<le> s" "s < 23"
    "pos < length (piles g ! s)" "c < length (deck g)"
    using ui_source [OF inv cd] by blast
  show ?thesis
  proof (cases "move_legal (deck g) (deck g ! c) ctop")
    case True
    have "game_inv (transfer g c s pos t)" using transfer_inv [OF inv s(2,3) t(2,3) s(4)] .
    then obtain g3 b where "check_and_do_remove r (transfer g c s pos t) = Inr (g3, b)" "game_inv g3"
      using check_and_do_remove_inv_ok by blast
    then show ?thesis using move_card_eq [OF inv t(1,3) s(1,4,5)] True by auto
  next
    case False
    then show ?thesis using move_card_eq [OF inv t(1,3) s(1,4,5)] inv by auto
  qed
qed

lemma move_card_log:
  assumes inv: "game_inv g" and ui: "ui_request g c tg" and mv: "move_card r g c tg = Inr (g', b)"
    and ok: "log_ok g"
  shows "log_ok g'"
proof -
  obtain t ctop s pos where t: "get_pile_dropped_on (piles g) tg = Some (t, ctop)" "13 \<le> t" "t < 23"
    and s: "find_card (piles g) c = Some (s, pos)" "13 \<le> s" "s < 23" "pos < length (piles g ! s)"
      "c < length (deck g)"
    using ui_parts [OF inv ui] by blast
  have len: "length (piles g) = 23" "length (deck g) = 104"
    using inv by (simp_all add: game_inv_def deck_ok_def)
  let ?g2 = "transfer g c s pos t"
  have inv2: "game_inv ?g2" using transfer_inv [OF inv s(2,3) t(2,3) s(4)] .
  have ok2: "log_ok ?g2"
    using ok transfer_piles(4) [of s g t c pos] len s t by (simp add: log_ok_def move_ok_def)
  show ?thesis
  proof (cases "move_legal (deck g) (deck g ! c) ctop")
    case True
    then obtain g3 b3 where "check_and_do_remove r ?g2 = Inr (g3, b3)" "g' = g3"
      using mv move_card_eq [OF inv t(1,3) s(1,4,5)] by (auto split: sum.splits)
    then show ?thesis using check_and_do_remove_log [OF inv2 _ ok2] by blast
  next
    case False
    then show ?thesis using mv move_card_eq [OF inv t(1,3) s(1,4,5)] ok by auto
  qed
qed

text \<open>C2: A request the interface can make (a card it marks draggable
  dropped on a column or a column base) never fails from a state satisfying
  the invariant: \<open>moveCard\<close> either refuses and leaves the state as it is,
  or moves the cards, runs the removal engine, and keeps the invariant.\<close>

theorem move_card_inv:
  assumes "game_inv g" "ui_request g c tg"
  shows "\<exists>g' b. move_card r g c tg = Inr (g', b) \<and> game_inv g' \<and> (\<not> b \<longrightarrow> g' = g)"
  using assms by (rule move_card_ok)


text \<open>C21: A drop on a column base is accepted whatever the column holds:
  \<open>getPileDroppedOn\<close> gives no top card for \<open>base_n\<close>, so the rank test is
  skipped and any draggable card moves onto a non-empty column.\<close>

theorem base_drop_accepted:
  assumes "game_inv g" "can_drag g c" "n < 10"
  shows "\<exists>g'. move_card r g c (Base n) = Inr (g', True)"
proof -
  have ui: "ui_request g c (Base n)" using assms(2,3) by (simp add: ui_request_def column_target_def)
  obtain s pos where s: "find_card (piles g) c = Some (s, pos)" "13 \<le> s" "s < 23"
    "pos < length (piles g ! s)" "c < length (deck g)"
    using ui_source [OF assms(1,2)] by blast
  have t: "get_pile_dropped_on (piles g) (Base n) = Some (13 + n, None)"
    by (simp add: get_pile_dropped_on_def)
  have "game_inv (transfer g c s pos (13 + n))"
    using transfer_inv [OF assms(1) s(2,3) _ _ s(4)] assms(3) by simp
  then obtain g3 b where "check_and_do_remove r (transfer g c s pos (13 + n)) = Inr (g3, b)"
    using check_and_do_remove_inv_ok by blast
  then show ?thesis
    using move_card_eq [OF assms(1) t _ s(1,4,5)] assms(3) by (simp add: move_legal_def)
qed

end
