(* ===== verification/Deal.thy ===== *)
theory Deal
  imports Removal
begin

text \<open>
  Dealing a reserve pile, \<open>deal\<close> of \<open>src/V2/ssjs/spider-solitaire.js\<close>.
  Refused while a column is empty and when no reserve pile holds ten cards;
  otherwise the highest reserve pile with ten cards is popped card by card
  onto columns 0 to 9, each card turned up, a deal record is pushed (no
  point), and the run-removal engine runs.  Lemmas: the two refusals, the
  exact effect of a deal, card conservation; each deal empties a reserve
  pile, so repeated clicks on the Deal button (\<open>deal_clicks\<close>) meet a
  refusal within six.
\<close>

subsection \<open>Definitions\<close>

text \<open>\<open>for (stack = 0; stack < 10; stack++) if (piles[13 + stack].length == 0)
  break;\<close>: 10 when no column is empty.\<close>

function find_empty_column :: "piles \<Rightarrow> nat \<Rightarrow> nat" where
  "find_empty_column ps stack =
     (if stack < 10 then (if ps ! (13 + stack) = [] then stack else find_empty_column ps (Suc stack))
      else stack)"
  by pat_completeness auto
termination
  by (relation "measure (\<lambda>(ps, stack). 10 - stack)") auto

text \<open>\<open>for (stack = 5; stack >= 0; stack--) if (piles[stack].length == 10)
  break;\<close>, called with the number of candidates (6): -1 when none.  The
  same loop is used by \<open>prepareCards\<close> when a saved game is loaded.\<close>

fun find_full_reserve :: "piles \<Rightarrow> nat \<Rightarrow> int" where
  "find_full_reserve ps 0 = -1"
| "find_full_reserve ps (Suc k) = (if length (ps ! k) = 10 then int k else find_full_reserve ps k)"

text \<open>\<open>for (count = 0; count < 10; count++)\<close>: pop the reserve, turn the card
  up, push it on column \<open>count\<close> (\<open>cnt\<close> here).\<close>

fun deal_cols :: "nat list \<Rightarrow> nat \<Rightarrow> card list \<times> piles \<Rightarrow> error + (card list \<times> piles)" where
  "deal_cols [] stack st = Inr st"
| "deal_cols (cnt # cs) stack (dk, ps) =
     (case pop_pile ps stack of
        Inl e \<Rightarrow> Inl e
      | Inr (c, ps') \<Rightarrow> deal_cols cs stack (set_face dk c True, push_pile ps' (13 + cnt) c))"

definition deal :: "draws \<Rightarrow> game \<Rightarrow> error + game" where
  "deal r g =
     (if find_empty_column (piles g) 0 \<noteq> 10 then Inl EmptySpaces
      else
        (let stack = find_full_reserve (piles g) 6 in
         if stack = -1 then Inl NoCardsLeft
         else
           (case deal_cols [0..<10] (nat stack) (deck g, piles g) of
              Inl e \<Rightarrow> Inl e
            | Inr (dk, ps) \<Rightarrow>
                (case check_and_do_remove r (record_move (g\<lparr>deck := dk, piles := ps\<rparr>) (DealMove (nat stack))) of
                   Inl e \<Rightarrow> Inl e
                 | Inr (g', _) \<Rightarrow> Inr g'))))"

text \<open>The number of reserve piles still holding cards, and a row of
  \<open>n\<close> clicks on the Deal button that stops at the first refusal (the
  measure and the user behaviour of the liveness property below).\<close>

definition reserves_left :: "piles \<Rightarrow> nat" where
  "reserves_left ps = length (filter (\<lambda>i. ps ! i \<noteq> []) [0..<5])"

fun deal_clicks :: "draws \<Rightarrow> nat \<Rightarrow> game \<Rightarrow> error + game" where
  "deal_clicks r 0 g = Inr g"
| "deal_clicks r (Suc n) g = (case deal r g of Inl e \<Rightarrow> Inl e | Inr g' \<Rightarrow> deal_clicks r n g')"

subsection \<open>Lemmas\<close>

lemma find_empty_column_10:
  "m \<le> 10 \<Longrightarrow> find_empty_column ps m = 10 \<longleftrightarrow> (\<forall>j. m \<le> j \<and> j < 10 \<longrightarrow> ps ! (13 + j) \<noteq> [])"
proof (induction ps m rule: find_empty_column.induct)
  case (1 ps stack)
  show ?case
  proof (cases "stack < 10")
    case True
    show ?thesis
    proof (cases "ps ! (13 + stack) = []")
      case empty: True
      then have "find_empty_column ps stack = stack"
        using True by (simp add: find_empty_column.simps)
      then show ?thesis using True empty by auto
    next
      case False
      then have eq: "find_empty_column ps stack = find_empty_column ps (Suc stack)"
        using True by (simp add: find_empty_column.simps)
      have "(\<forall>j. stack \<le> j \<and> j < 10 \<longrightarrow> ps ! (13 + j) \<noteq> []) \<longleftrightarrow>
            (\<forall>j. Suc stack \<le> j \<and> j < 10 \<longrightarrow> ps ! (13 + j) \<noteq> [])"
      proof (intro iffI allI impI)
        fix j assume "\<forall>j. stack \<le> j \<and> j < 10 \<longrightarrow> ps ! (13 + j) \<noteq> []" "Suc stack \<le> j \<and> j < 10"
        then show "ps ! (13 + j) \<noteq> []" by simp
      next
        fix j assume A: "\<forall>j. Suc stack \<le> j \<and> j < 10 \<longrightarrow> ps ! (13 + j) \<noteq> []"
          and B: "stack \<le> j \<and> j < 10"
        show "ps ! (13 + j) \<noteq> []"
        proof (cases "j = stack")
          case True
          with False show ?thesis by simp
        next
          case ne: False
          with A B show ?thesis by simp
        qed
      qed
      then show ?thesis using eq "1.IH" [OF True False] True by simp
    qed
  next
    case False
    then have "stack = 10" using "1.prems" by simp
    then show ?thesis by (simp add: find_empty_column.simps) linarith
  qed
qed

lemma find_full_reserve_Some:
  "find_full_reserve ps k = int j \<Longrightarrow> j < k \<and> length (ps ! j) = 10 \<and> (\<forall>i. j < i \<and> i < k \<longrightarrow> length (ps ! i) \<noteq> 10)"
proof (induction k)
  case 0
  then show ?case by simp
next
  case (Suc k)
  then show ?case by (auto split: if_splits simp: less_Suc_eq)
qed

lemma find_full_reserve_None:
  "find_full_reserve ps k = -1 \<longleftrightarrow> (\<forall>i<k. length (ps ! i) \<noteq> 10)"
  by (induction k) (auto simp: less_Suc_eq)

lemma find_full_reserve_cases:
  "find_full_reserve ps k = -1 \<or> (\<exists>j. find_full_reserve ps k = int j)"
  by (induction k) auto

lemma deal_cols_ok:
  assumes "length cs \<le> length (ps ! k)" "k < 13" "length ps = 23" "\<forall>c\<in>set cs. c < 10" "distinct cs"
    and "\<forall>x\<in>set (ps ! k). x < length dk"
  shows "\<exists>dk' ps'. deal_cols cs k (dk, ps) = Inr (dk', ps') \<and> length ps' = 23 \<and>
     mset (concat ps') = mset (concat ps) \<and>
     ps' ! k = take (length (ps ! k) - length cs) (ps ! k) \<and>
     (\<forall>i<23. i \<noteq> k \<and> (i < 13 \<or> i - 13 \<notin> set cs) \<longrightarrow> ps' ! i = ps ! i) \<and>
     (\<forall>i<length cs. ps' ! (13 + cs ! i) = ps ! (13 + cs ! i) @ [ps ! k ! (length (ps ! k) - Suc i)] \<and>
                    facingUp (dk' ! (ps ! k ! (length (ps ! k) - Suc i)))) \<and>
     length dk' = length dk \<and> (\<forall>x<length dk. facingUp (dk ! x) \<longrightarrow> facingUp (dk' ! x)) \<and>
     (\<forall>x<length dk. dk' ! x = (dk ! x)\<lparr>facingUp := facingUp (dk' ! x)\<rparr>)"
  using assms
proof (induction cs arbitrary: dk ps)
  case Nil
  then show ?case by simp
next
  case (Cons c cs)
  let ?p = "ps ! k"
  define x where "x = last ?p"
  define ps1 where "ps1 = ps[k := butlast ?p]"
  define dk1 where "dk1 = set_face dk x True"
  define ps2 where "ps2 = push_pile ps1 (13 + c) x"
  have ne: "?p \<noteq> []" using Cons.prems(1) by auto
  have c: "c < 10" "c \<notin> set cs" using Cons.prems(4,5) by auto
  have xin: "x \<in> set ?p" using ne by (simp add: x_def)
  have xl: "x < length dk" using Cons.prems(6) xin by simp
  have pop: "pop_pile ps k = Inr (x, ps1)" using ne by (simp add: pop_pile_def x_def ps1_def)
  have step: "deal_cols (c # cs) k (dk, ps) = deal_cols cs k (dk1, ps2)"
    using pop by (simp add: dk1_def ps2_def)
  have len1: "length ps1 = 23" using Cons.prems(3) by (simp add: ps1_def)
  have nth2: "ps2 ! i = (if i = 13 + c then ps ! i @ [x] else if i = k then butlast ?p else ps ! i)"
    if "i < 23" for i
    using that c(1) Cons.prems(2,3) len1 by (auto simp: ps2_def ps1_def nth_push_pile nth_list_update)
  have k2: "ps2 ! k = butlast ?p" using nth2 [of k] Cons.prems(2) c(1) by simp
  have IH: "\<exists>dk' ps'. deal_cols cs k (dk1, ps2) = Inr (dk', ps') \<and> length ps' = 23 \<and>
     mset (concat ps') = mset (concat ps2) \<and>
     ps' ! k = take (length (ps2 ! k) - length cs) (ps2 ! k) \<and>
     (\<forall>i<23. i \<noteq> k \<and> (i < 13 \<or> i - 13 \<notin> set cs) \<longrightarrow> ps' ! i = ps2 ! i) \<and>
     (\<forall>i<length cs. ps' ! (13 + cs ! i) = ps2 ! (13 + cs ! i) @ [ps2 ! k ! (length (ps2 ! k) - Suc i)] \<and>
                    facingUp (dk' ! (ps2 ! k ! (length (ps2 ! k) - Suc i)))) \<and>
     length dk' = length dk1 \<and> (\<forall>x<length dk1. facingUp (dk1 ! x) \<longrightarrow> facingUp (dk' ! x)) \<and>
     (\<forall>x<length dk1. dk' ! x = (dk1 ! x)\<lparr>facingUp := facingUp (dk' ! x)\<rparr>)"
  proof (rule Cons.IH)
    show "length cs \<le> length (ps2 ! k)" using Cons.prems(1) k2 by simp
    show "length ps2 = 23" using len1 by (simp add: ps2_def length_push_pile)
    show "\<forall>c\<in>set cs. c < 10" "distinct cs" using Cons.prems(4,5) by simp_all
    show "\<forall>x\<in>set (ps2 ! k). x < length dk1"
      using Cons.prems(6) k2 by (auto simp: dk1_def dest: in_set_butlastD)
  qed (use Cons.prems(2) in simp)
  then obtain dk' ps' where R: "deal_cols cs k (dk1, ps2) = Inr (dk', ps')" "length ps' = 23"
     "mset (concat ps') = mset (concat ps2)"
     "ps' ! k = take (length (ps2 ! k) - length cs) (ps2 ! k)"
     "\<forall>i<23. i \<noteq> k \<and> (i < 13 \<or> i - 13 \<notin> set cs) \<longrightarrow> ps' ! i = ps2 ! i"
     "\<forall>i<length cs. ps' ! (13 + cs ! i) = ps2 ! (13 + cs ! i) @ [ps2 ! k ! (length (ps2 ! k) - Suc i)] \<and>
                    facingUp (dk' ! (ps2 ! k ! (length (ps2 ! k) - Suc i)))"
     "length dk' = length dk1" "\<forall>x<length dk1. facingUp (dk1 ! x) \<longrightarrow> facingUp (dk' ! x)"
     "\<forall>x<length dk1. dk' ! x = (dk1 ! x)\<lparr>facingUp := facingUp (dk' ! x)\<rparr>"
    by blast
  have lenp: "length ?p = Suc (length (butlast ?p))" using ne by simp
  have xlast: "?p ! (length ?p - Suc 0) = x" using ne by (simp add: x_def last_conv_nth)
  have mset: "mset (concat ps') = mset (concat ps)"
  proof -
    have "mset (concat ps2) = add_mset x (mset (concat ps1))"
      using len1 c(1) by (simp add: ps2_def mset_concat_push)
    also have "\<dots> = mset (concat ps)" using mset_concat_pop [OF _ pop] Cons.prems(2,3) by simp
    finally show ?thesis using R(3) by simp
  qed
  have topk: "ps' ! k = take (length ?p - length (c # cs)) ?p"
    using R(4) k2 ne by (simp add: take_butlast)
  have same: "ps' ! i = ps ! i" if "i < 23" "i \<noteq> k" "i < 13 \<or> i - 13 \<notin> set (c # cs)" for i
  proof -
    have "i \<noteq> 13 + c" using that(3) by auto
    then show ?thesis using R(5) that nth2 [of i] by auto
  qed
  have colc: "ps' ! (13 + c) = ps ! (13 + c) @ [?p ! (length ?p - Suc 0)] \<and> facingUp (dk' ! (?p ! (length ?p - Suc 0)))"
  proof -
    have "ps' ! (13 + c) = ps2 ! (13 + c)" using R(5) c Cons.prems(2) by simp
    moreover have "facingUp (dk1 ! x)" using xl by (simp add: dk1_def set_face_nth)
    ultimately show ?thesis using nth2 [of "13 + c"] c(1) R(8) xl xlast by (simp add: dk1_def)
  qed
  have cols: "ps' ! (13 + cs ! i) = ps ! (13 + cs ! i) @ [?p ! (length ?p - Suc (Suc i))] \<and>
              facingUp (dk' ! (?p ! (length ?p - Suc (Suc i))))" if "i < length cs" for i
  proof -
    have ci: "cs ! i < 10" "cs ! i \<noteq> c" using Cons.prems(4) c(2) that by (auto simp: nth_mem)
    have "ps2 ! k ! (length (ps2 ! k) - Suc i) = ?p ! (length ?p - Suc (Suc i))"
      using k2 that Cons.prems(1) by (simp add: nth_butlast)
    moreover have "ps2 ! (13 + cs ! i) = ps ! (13 + cs ! i)"
      using nth2 [of "13 + cs ! i"] ci Cons.prems(2) by simp
    ultimately show ?thesis using R(6) [rule_format, OF that] by simp
  qed
  have deck1: "length dk1 = length dk" by (simp add: dk1_def)
  have mono: "facingUp (dk' ! y)" if "y < length dk" "facingUp (dk ! y)" for y
    using R(8) that deck1 by (simp add: dk1_def set_face_nth)
  have shape: "dk' ! y = (dk ! y)\<lparr>facingUp := facingUp (dk' ! y)\<rparr>" if "y < length dk" for y
    using R(9) [rule_format, of y] that deck1 by (cases "y = x") (simp_all add: dk1_def set_face_nth)
  have E: "deal_cols (c # cs) k (dk, ps) = Inr (dk', ps')" using step R(1) by simp
  have L: "length dk' = length dk" using R(7) deck1 by simp
  have A: "\<forall>i<23. i \<noteq> k \<and> (i < 13 \<or> i - 13 \<notin> set (c # cs)) \<longrightarrow> ps' ! i = ps ! i"
    using same by blast
  have B: "\<forall>i<length (c # cs). ps' ! (13 + (c # cs) ! i) = ps ! (13 + (c # cs) ! i) @ [?p ! (length ?p - Suc i)] \<and>
                    facingUp (dk' ! (?p ! (length ?p - Suc i)))"
  proof (intro allI impI)
    fix i assume i: "i < length (c # cs)"
    then show "ps' ! (13 + (c # cs) ! i) = ps ! (13 + (c # cs) ! i) @ [?p ! (length ?p - Suc i)] \<and>
                    facingUp (dk' ! (?p ! (length ?p - Suc i)))"
      using colc cols [of "i - 1"] by (cases i) simp_all
  qed
  have C: "\<forall>x<length dk. facingUp (dk ! x) \<longrightarrow> facingUp (dk' ! x)" using mono by blast
  have D: "\<forall>x<length dk. dk' ! x = (dk ! x)\<lparr>facingUp := facingUp (dk' ! x)\<rparr>" using shape by blast
  show ?case using E R(2) mset topk A B L C D by blast
qed

lemma reserve_okD:
  "reserve_ok ps \<Longrightarrow> i < 5 \<Longrightarrow> ps ! i = [] \<or> length (ps ! i) = 10"
  by (simp add: reserve_ok_def list_all_iff)

lemma deal_reserve_found:
  assumes inv: "game_inv g" and f: "find_full_reserve (piles g) 6 = int j"
  shows "j < 5 \<and> length (piles g ! j) = 10 \<and> (\<forall>l. j < l \<and> l < 5 \<longrightarrow> piles g ! l = [])"
proof -
  have F: "j < 6" "length (piles g ! j) = 10" "\<forall>i. j < i \<and> i < 6 \<longrightarrow> length (piles g ! i) \<noteq> 10"
    using find_full_reserve_Some [OF f] by auto
  have "\<forall>i\<in>set [5..<13]. piles g ! i = [] \<or> length (piles g ! i) = 13"
    using inv by (simp add: game_inv_def foundation_ok_def list_all_iff)
  then have "piles g ! 5 = [] \<or> length (piles g ! 5) = 13" by (rule bspec) simp
  then have "j \<noteq> 5" using F(2) by auto
  moreover have R: "\<forall>i<5. piles g ! i = [] \<or> length (piles g ! i) = 10"
    using inv reserve_okD unfolding game_inv_def by blast
  have "piles g ! l = []" if "j < l" "l < 5" for l
  proof -
    have "length (piles g ! l) \<noteq> 10" using F(3) that by simp
    then show ?thesis using R that(2) by blast
  qed
  ultimately show ?thesis using F by auto
qed

lemma reserve_ok_emptyD:
  assumes "reserve_ok ps" "i < 5" "ps ! i = []" "i \<le> l" "l < 5"
  shows "ps ! l = []"
proof -
  have "\<forall>i\<in>{0..<5}. ps ! i = [] \<longrightarrow> (\<forall>j\<in>{i..<5}. ps ! j = [])"
    using assms(1) by (simp add: reserve_ok_def list_all_iff)
  then have "\<forall>j\<in>{i..<5}. ps ! j = []" using assms(2,3) by (auto dest: bspec [of _ _ i])
  then show ?thesis using assms(4,5) by (auto dest: bspec [of _ _ l])
qed

lemma deal_reserves_ok:
  assumes res: "reserve_ok ps" and j: "j < 5" "length (ps ! j) = 10"
    and above: "\<forall>l. j < l \<and> l < 5 \<longrightarrow> ps ! l = []"
    and ps': "ps' ! j = []" "\<forall>i<5. i \<noteq> j \<longrightarrow> ps' ! i = ps ! i"
  shows "reserve_ok ps'"
proof -
  have below: "ps ! i \<noteq> []" if "i < j" for i
  proof
    assume "ps ! i = []"
    then have "ps ! j = []" using reserve_ok_emptyD [OF res] that j(1) by simp
    then show False using j(2) by simp
  qed
  have A: "ps' ! i = [] \<or> length (ps' ! i) = 10" if "i < 5" for i
    using reserve_okD [OF res that] ps' that by (cases "i = j") auto
  have B: "ps' ! l = []" if "i < 5" "ps' ! i = []" "i \<le> l" "l < 5" for i l
  proof (cases "l = j")
    case False
    have "\<not> i < j"
    proof
      assume "i < j"
      then show False using that(1,2) below [of i] ps'(2) by simp
    qed
    then have "j \<le> i" by simp
    then show ?thesis using False above ps'(2) that(3,4) by auto
  qed (use ps' in simp)
  show ?thesis using A B by (auto simp: reserve_ok_def list_all_iff)
qed

lemma deal_cols_inv:
  assumes inv: "game_inv g" and f: "find_full_reserve (piles g) 6 = int j"
  shows "\<exists>dk' ps'. deal_cols [0..<10] j (deck g, piles g) = Inr (dk', ps') \<and>
           game_inv (g\<lparr>deck := dk', piles := ps'\<rparr>) \<and> ps' ! j = [] \<and>
           (\<forall>i<13. i \<noteq> j \<longrightarrow> ps' ! i = piles g ! i) \<and>
           (\<forall>c<10. ps' ! (13 + c) = piles g ! (13 + c) @ [piles g ! j ! (9 - c)] \<and>
                   facingUp (dk' ! (piles g ! j ! (9 - c))))"
proof -
  let ?ps = "piles g" and ?dk = "deck g"
  have J: "j < 5" "length (?ps ! j) = 10" "\<forall>l. j < l \<and> l < 5 \<longrightarrow> ?ps ! l = []"
    using deal_reserve_found [OF inv f] by auto
  have len: "length ?ps = 23" using inv by (simp add: game_inv_def)
  have ids: "\<forall>x\<in>set (?ps ! j). x < length ?dk"
    using game_inv_ids_all [OF inv, rule_format, of j] J(1) len by simp
  have "\<exists>dk' ps'. deal_cols [0..<10] j (?dk, ?ps) = Inr (dk', ps') \<and> length ps' = 23 \<and>
     mset (concat ps') = mset (concat ?ps) \<and>
     ps' ! j = take (length (?ps ! j) - length [0..<10::nat]) (?ps ! j) \<and>
     (\<forall>i<23. i \<noteq> j \<and> (i < 13 \<or> i - 13 \<notin> set [0..<10]) \<longrightarrow> ps' ! i = ?ps ! i) \<and>
     (\<forall>i<length [0..<10::nat]. ps' ! (13 + [0..<10] ! i) = ?ps ! (13 + [0..<10] ! i) @
              [?ps ! j ! (length (?ps ! j) - Suc i)] \<and>
              facingUp (dk' ! (?ps ! j ! (length (?ps ! j) - Suc i)))) \<and>
     length dk' = length ?dk \<and> (\<forall>x<length ?dk. facingUp (?dk ! x) \<longrightarrow> facingUp (dk' ! x)) \<and>
     (\<forall>x<length ?dk. dk' ! x = (?dk ! x)\<lparr>facingUp := facingUp (dk' ! x)\<rparr>)"
    by (rule deal_cols_ok) (use J(1,2) len ids in simp_all)
  then obtain dk' ps' where E: "deal_cols [0..<10] j (?dk, ?ps) = Inr (dk', ps')" and L: "length ps' = 23"
    and M: "mset (concat ps') = mset (concat ?ps)"
    and K: "ps' ! j = take (length (?ps ! j) - length [0..<10::nat]) (?ps ! j)"
    and U: "\<forall>i<23. i \<noteq> j \<and> (i < 13 \<or> i - 13 \<notin> set [0..<10]) \<longrightarrow> ps' ! i = ?ps ! i"
    and C: "\<forall>i<length [0..<10::nat]. ps' ! (13 + [0..<10] ! i) = ?ps ! (13 + [0..<10] ! i) @
              [?ps ! j ! (length (?ps ! j) - Suc i)] \<and>
              facingUp (dk' ! (?ps ! j ! (length (?ps ! j) - Suc i)))"
    and DL: "length dk' = length ?dk"
    and DS: "\<forall>x<length ?dk. dk' ! x = (?dk ! x)\<lparr>facingUp := facingUp (dk' ! x)\<rparr>"
    by blast
  have Kj: "ps' ! j = []" using K J(2) by simp
  have low: "\<forall>i<13. i \<noteq> j \<longrightarrow> ps' ! i = ?ps ! i" using U by simp
  have res: "reserve_ok ps'"
    by (rule deal_reserves_ok [of ?ps j]) (use inv J Kj low in \<open>simp_all add: game_inv_def\<close>)
  have fo: "foundation_ok ps'"
  proof -
    have "foundation_ok ps' = foundation_ok ?ps" by (rule foundation_ok_cong) (use low J(1) in simp)
    then show ?thesis using inv by (simp add: game_inv_def)
  qed
  have dko: "deck_ok dk'"
  proof -
    have D: "deck_ok ?dk" using inv by (simp add: game_inv_def)
    have "card_id (dk' ! i) = i \<and> wf_card (dk' ! i)" if "i < 104" for i
    proof -
      have "i < length ?dk" using D that by (simp add: deck_ok_def)
      then have eq: "dk' ! i = (?dk ! i)\<lparr>facingUp := facingUp (dk' ! i)\<rparr>" using DS by blast
      have "card_id (dk' ! i) = card_id (?dk ! i)" "wf_card (dk' ! i) = wf_card (?dk ! i)"
        using arg_cong [OF eq, of card_id] arg_cong [OF eq, of wf_card] by simp_all
      then show ?thesis using deck_ok_card [OF D that] by simp
    qed
    then show ?thesis using DL D by (simp add: deck_ok_def list_all_iff)
  qed
  have tu: "tops_up dk' ps'"
    unfolding tops_up_def list_all_iff
  proof (intro ballI impI)
    fix i assume "i \<in> set [13..<23]"
    define c where "c = i - 13"
    then have c: "c < 10" "i = 13 + c" using \<open>i \<in> set [13..<23]\<close> by auto
    then show "facingUp (dk' ! last (ps' ! i))" using C [rule_format, of c] by simp
  qed
  have "game_inv (g\<lparr>deck := dk', piles := ps'\<rparr>)"
    using inv L M res fo dko tu by (simp add: game_inv_def)
  moreover have "\<forall>c<10. ps' ! (13 + c) = ?ps ! (13 + c) @ [?ps ! j ! (9 - c)] \<and>
                   facingUp (dk' ! (?ps ! j ! (9 - c)))"
  proof (intro allI impI)
    fix c :: nat assume "c < 10"
    then show "ps' ! (13 + c) = ?ps ! (13 + c) @ [?ps ! j ! (9 - c)] \<and> facingUp (dk' ! (?ps ! j ! (9 - c)))"
      using C [rule_format, of c] J(2) by simp
  qed
  ultimately show ?thesis using E Kj low by blast
qed

lemma full_homes_cong:
  "(\<And>i. 5 \<le> i \<Longrightarrow> i < 13 \<Longrightarrow> ps' ! i = ps ! i) \<Longrightarrow> full_homes ps' = full_homes ps"
  unfolding full_homes_def by (metis (no_types, lifting) atLeastLessThan_iff set_upt takeWhile_cong)

lemma deal_ok:
  assumes inv: "game_inv g" and cols: "\<forall>i<10. piles g ! (13 + i) \<noteq> []"
    and res: "\<exists>i<5. piles g ! i \<noteq> []"
  shows "\<exists>g'. deal r g = Inr g' \<and> game_inv g' \<and>
           score g' = score g + 100 * int (full_homes (piles g') - full_homes (piles g))"
proof -
  have e: "find_empty_column (piles g) 0 = 10" using find_empty_column_10 [of 0] cols by simp
  obtain i where i: "i < 5" "piles g ! i \<noteq> []" using res by blast
  have "length (piles g ! i) = 10"
    using reserve_okD [of "piles g" i] inv i by (simp add: game_inv_def)
  then have "find_full_reserve (piles g) 6 \<noteq> -1" using find_full_reserve_None i(1) by fastforce
  then obtain j where j: "find_full_reserve (piles g) 6 = int j" using find_full_reserve_cases by blast
  obtain dk ps where D: "deal_cols [0..<10] j (deck g, piles g) = Inr (dk, ps)"
    and inv1: "game_inv (g\<lparr>deck := dk, piles := ps\<rparr>)" and low: "\<forall>i<13. i \<noteq> j \<longrightarrow> ps ! i = piles g ! i"
    and up: "\<forall>c<10. ps ! (13 + c) = piles g ! (13 + c) @ [piles g ! j ! (9 - c)] \<and>
                   facingUp (dk ! (piles g ! j ! (9 - c)))"
    and jl: "j < 5"
    using deal_cols_inv [OF inv j] deal_reserve_found [OF inv j] by blast
  let ?g2 = "record_move (g\<lparr>deck := dk, piles := ps\<rparr>) (DealMove j)"
  have inv2: "game_inv ?g2" using inv1 by (simp add: game_inv_def)
  have cols2: "\<forall>i<10. piles ?g2 ! (13 + i) \<noteq> []" using up by simp
  obtain g' where R: "check_and_do_remove r ?g2 = Inr (g', True)" "game_inv g'"
    "score g' = score ?g2 + 100 * int (full_homes (piles g') - full_homes (piles ?g2))"
    using check_and_do_remove_columns [OF inv2 cols2] by blast
  have fh: "full_homes ps = full_homes (piles g)" by (rule full_homes_cong) (use low jl in simp)
  have "deal r g = Inr g'" using e j D R(1) by (simp add: deal_def)
  moreover have "score ?g2 = score g" by (simp add: record_move_score)
  ultimately show ?thesis using R fh by auto
qed

lemma deal_refusals_ok:
  assumes inv: "game_inv g"
  shows "(deal r g = Inl EmptySpaces \<longleftrightarrow> (\<exists>i<10. piles g ! (13 + i) = [])) \<and>
         (deal r g = Inl NoCardsLeft \<longleftrightarrow> (\<forall>i<10. piles g ! (13 + i) \<noteq> []) \<and> (\<forall>i<5. piles g ! i = []))"
proof (cases "\<forall>i<10. piles g ! (13 + i) \<noteq> []")
  case False
  then have "find_empty_column (piles g) 0 \<noteq> 10" using find_empty_column_10 [of 0] by simp
  then have "deal r g = Inl EmptySpaces" by (simp add: deal_def)
  then show ?thesis using False by simp
next
  case cols: True
  have e: "find_empty_column (piles g) 0 = 10" using find_empty_column_10 [of 0] cols by simp
  show ?thesis
  proof (cases "\<forall>i<5. piles g ! i = []")
    case True
    have "piles g ! 5 = [] \<or> length (piles g ! 5) = 13"
      using inv unfolding game_inv_def foundation_ok_def list_all_iff by (auto dest: bspec [of _ _ 5])
    then have "\<forall>i<6. length (piles g ! i) \<noteq> 10"
    proof (intro allI impI)
      fix i :: nat assume h5: "piles g ! 5 = [] \<or> length (piles g ! 5) = 13" and "i < 6"
      then consider "i < 5" | "i = 5" by linarith
      then show "length (piles g ! i) \<noteq> 10"
        by cases (use True h5 in auto)
    qed
    then have "find_full_reserve (piles g) 6 = -1" using find_full_reserve_None by blast
    then have "deal r g = Inl NoCardsLeft" using e by (simp add: deal_def)
    then show ?thesis using cols True by simp
  next
    case False
    then obtain g' where "deal r g = Inr g'" using deal_ok [OF inv cols, of r] by blast
    then show ?thesis using cols False by simp
  qed
qed

lemma deal_progress_ok:
  assumes inv: "game_inv g" and cols: "\<forall>i<10. piles g ! (13 + i) \<noteq> []"
    and res: "\<exists>i<5. piles g ! i \<noteq> []"
  shows "\<exists>g'. deal r g = Inr g' \<and> game_inv g' \<and> reserves_left (piles g') < reserves_left (piles g)"
proof -
  have e: "find_empty_column (piles g) 0 = 10" using find_empty_column_10 [of 0] cols by simp
  obtain i where i: "i < 5" "piles g ! i \<noteq> []" using res by blast
  have "length (piles g ! i) = 10"
    using reserve_okD [of "piles g" i] inv i by (simp add: game_inv_def)
  then have "find_full_reserve (piles g) 6 \<noteq> -1" using find_full_reserve_None i(1) by fastforce
  then obtain j where j: "find_full_reserve (piles g) 6 = int j" using find_full_reserve_cases by blast
  obtain dk ps where D: "deal_cols [0..<10] j (deck g, piles g) = Inr (dk, ps)"
    and inv1: "game_inv (g\<lparr>deck := dk, piles := ps\<rparr>)" and low: "\<forall>i<13. i \<noteq> j \<longrightarrow> ps ! i = piles g ! i"
    and up: "\<forall>c<10. ps ! (13 + c) = piles g ! (13 + c) @ [piles g ! j ! (9 - c)] \<and>
                   facingUp (dk ! (piles g ! j ! (9 - c)))"
    and pj: "ps ! j = []" and jl: "j < 5" and jn: "length (piles g ! j) = 10"
    using deal_cols_inv [OF inv j] deal_reserve_found [OF inv j] by blast
  let ?g2 = "record_move (g\<lparr>deck := dk, piles := ps\<rparr>) (DealMove j)"
  have inv2: "game_inv ?g2" using inv1 by (simp add: game_inv_def)
  have cols2: "\<forall>i<10. piles ?g2 ! (13 + i) \<noteq> []" using up by simp
  obtain g' where R: "check_and_do_remove r ?g2 = Inr (g', True)" "game_inv g'"
    using check_and_do_remove_columns [OF inv2 cols2] by blast
  have keep: "piles g' ! i = ps ! i" if "i < 5" for i
    using check_and_do_remove_keeps [OF R(1) that] by simp
  have "reserves_left (piles g') < reserves_left (piles g)"
    unfolding reserves_left_def
  proof (rule length_filter_strict [of _ _ _ j])
    show "\<forall>x\<in>set [0..<5]. piles g' ! x \<noteq> [] \<longrightarrow> piles g ! x \<noteq> []"
    proof (intro ballI impI)
      fix x assume x: "x \<in> set [0..<5]" and ne: "piles g' ! x \<noteq> []"
      then have "x < 5" by simp
      then have "ps ! x \<noteq> []" using keep ne by simp
      then have "x \<noteq> j" using pj by auto
      then show "piles g ! x \<noteq> []" using low \<open>x < 5\<close> \<open>ps ! x \<noteq> []\<close> by simp
    qed
  qed (use jl jn keep [of j] pj in auto)
  moreover have "deal r g = Inr g'" using e j D R(1) by (simp add: deal_def)
  ultimately show ?thesis using R(2) by blast
qed

lemma deal_outcomes:
  assumes inv: "game_inv g"
  shows "deal r g = Inl EmptySpaces \<or> deal r g = Inl NoCardsLeft \<or>
         (\<exists>g'. deal r g = Inr g' \<and> game_inv g' \<and> reserves_left (piles g') < reserves_left (piles g))"
proof (cases "(\<forall>i<10. piles g ! (13 + i) \<noteq> []) \<and> (\<exists>i<5. piles g ! i \<noteq> [])")
  case True
  then show ?thesis using deal_progress_ok [OF inv, of r] by blast
next
  case False
  then show ?thesis using deal_refusals_ok [OF inv, of r] by blast
qed

lemma deal_clicks_stop:
  assumes "game_inv g" "reserves_left (piles g) < n"
  shows "deal_clicks r n g = Inl EmptySpaces \<or> deal_clicks r n g = Inl NoCardsLeft"
  using assms
proof (induction n arbitrary: g)
  case 0
  then show ?case by simp
next
  case (Suc n)
  consider (a) "deal r g = Inl EmptySpaces" | (b) "deal r g = Inl NoCardsLeft"
    | (c) g' where "deal r g = Inr g'" "game_inv g'" "reserves_left (piles g') < reserves_left (piles g)"
    using deal_outcomes [OF Suc.prems(1), of r] by blast
  then show ?case
  proof cases
    case c
    then have "reserves_left (piles g') < n" using Suc.prems(2) by simp
    then show ?thesis using Suc.IH [OF c(2)] c(1) by simp
  qed simp_all
qed

lemma reserves_left_le: "reserves_left ps \<le> 5"
  unfolding reserves_left_def using length_filter_le [of _ "[0..<5::nat]"] by simp

lemma deal_log:
  assumes inv: "game_inv g" and d: "deal r g = Inr g'" and ok: "log_ok g"
  shows "log_ok g'"
proof -
  have "find_full_reserve (piles g) 6 \<noteq> -1"
  proof
    assume "find_full_reserve (piles g) 6 = -1"
    then have "deal r g = Inl NoCardsLeft \<or> deal r g = Inl EmptySpaces" by (simp add: deal_def)
    then show False using d by auto
  qed
  then obtain j where j: "find_full_reserve (piles g) 6 = int j"
    using find_full_reserve_cases [of "piles g" 6] by blast
  obtain dk ps where D: "deal_cols [0..<10] j (deck g, piles g) = Inr (dk, ps)"
    and inv1: "game_inv (g\<lparr>deck := dk, piles := ps\<rparr>)" and jl: "j < 5"
    using deal_cols_inv [OF inv j] deal_reserve_found [OF inv j] by blast
  let ?g2 = "record_move (g\<lparr>deck := dk, piles := ps\<rparr>) (DealMove j)"
  have inv2: "game_inv ?g2" using inv1 by (simp add: game_inv_def)
  have ok2: "log_ok ?g2" using ok jl by (simp add: log_ok_def move_ok_def)
  obtain b where "check_and_do_remove r ?g2 = Inr (g', b)"
    using d j D by (auto simp: deal_def split: if_splits sum.splits)
  then show ?thesis using check_and_do_remove_log [OF inv2 _ ok2] by blast
qed

subsection \<open>Properties\<close>

text \<open>C7: a deal from a state satisfying the invariant, with every column
  non-empty and some reserve pile left, succeeds and keeps the invariant;
  it scores nothing except the runs it lets the removal engine take.\<close>

theorem deal_inv:
  assumes "game_inv g" "\<forall>i<10. piles g ! (13 + i) \<noteq> []" "\<exists>i<5. piles g ! i \<noteq> []"
  shows "\<exists>g'. deal r g = Inr g' \<and> game_inv g' \<and>
           score g' = score g + 100 * int (full_homes (piles g') - full_homes (piles g))"
  using assms by (rule deal_ok)

text \<open>C22: the two refusals of a deal: \<open>EmptySpaces\<close> exactly when a column
  is empty, \<open>NoCardsLeft\<close> exactly when no column is empty and every reserve
  pile is.\<close>

theorem deal_refusals:
  assumes "game_inv g"
  shows "(deal r g = Inl EmptySpaces \<longleftrightarrow> (\<exists>i<10. piles g ! (13 + i) = [])) \<and>
         (deal r g = Inl NoCardsLeft \<longleftrightarrow> (\<forall>i<10. piles g ! (13 + i) \<noteq> []) \<and> (\<forall>i<5. piles g ! i = []))"
  using assms by (rule deal_refusals_ok)

text \<open>C23: the dealing loop empties the highest full reserve pile \<open>j\<close>, leaves
  the other reserves and the foundations alone, and puts on column \<open>c\<close> the
  card \<open>9 - c\<close> of the pile (its top card on column 0), face up.\<close>

theorem deal_cols_effect:
  assumes "game_inv g" "find_full_reserve (piles g) 6 = int j"
  shows "\<exists>dk ps. deal_cols [0..<10] j (deck g, piles g) = Inr (dk, ps) \<and> ps ! j = [] \<and>
           (\<forall>i<13. i \<noteq> j \<longrightarrow> ps ! i = piles g ! i) \<and>
           (\<forall>c<10. ps ! (13 + c) = piles g ! (13 + c) @ [piles g ! j ! (9 - c)] \<and>
                   facingUp (dk ! (piles g ! j ! (9 - c))))"
  using deal_cols_inv [OF assms] by blast

text \<open>C16: the stock runs out: from any state satisfying the invariant, a
  row of six clicks on the Deal button meets a refusal, because every deal
  that is made empties one of the five reserve piles and the removals that
  follow never refill one.\<close>

theorem deal_stock_runs_out:
  assumes "game_inv g"
  shows "deal_clicks r 6 g = Inl EmptySpaces \<or> deal_clicks r 6 g = Inl NoCardsLeft"
proof -
  have "reserves_left (piles g) < 6" using reserves_left_le [of "piles g"] by simp
  then show ?thesis using deal_clicks_stop [OF assms] by blast
qed

end
