(* ===== verification/Undo.thy ===== *)
theory Undo
  imports Move Deal
begin

text \<open>
  The undo log, \<open>undo\<close> of \<open>src/V2/ssjs/spider-solitaire.js\<close>.  The most
  recent record is popped and reversed: a deal puts the ten top cards of the
  columns back, face down, onto the lowest empty reserve pile; a removal turns
  the uncovered card back down, puts the 13 cards back onto the column and
  costs 99 points, then undoes the record before it as well (a recursive call
  of \<open>undo\<close>); a transfer turns the uncovered card back down and moves the
  cards from the moved card up back to their source.  Every undo costs one
  more point at its end.  Lemmas: undo after a move or a deal restores the
  piles, the faces and the log; the score after the pair; the empty log;
  every undo consumes the log and keeps it well typed.
\<close>

subsection \<open>Definitions\<close>

text \<open>\<open>for (stack = 0; stack < 5; stack++) if (piles[stack].length == 0)
  break;\<close>: 5 when no reserve pile is empty.\<close>

function first_empty_reserve :: "piles \<Rightarrow> nat \<Rightarrow> nat" where
  "first_empty_reserve ps stack =
     (if stack < 5 then (if ps ! stack = [] then stack else first_empty_reserve ps (Suc stack))
      else stack)"
  by pat_completeness auto
termination
  by (relation "measure (\<lambda>(ps, stack). 5 - stack)") auto

text \<open>\<open>for (count = 9; count >= 0; count--)\<close>: pop column \<open>count\<close>, turn
  the card down, push it on the reserve pile.\<close>

fun undeal_cols :: "nat list \<Rightarrow> nat \<Rightarrow> card list \<times> piles \<Rightarrow> error + (card list \<times> piles)" where
  "undeal_cols [] stack st = Inr st"
| "undeal_cols (cnt # cs) stack (dk, ps) =
     (case pop_pile ps (13 + cnt) of
        Inl e \<Rightarrow> Inl e
      | Inr (c, ps') \<Rightarrow> undeal_cols cs stack (set_face dk c False, push_pile ps' stack c))"

text \<open>The deal branch; with no empty reserve pile the source only alerts
  (\<open>'Oops, tried to undo a deal when no deal was done!'\<close>).\<close>

definition undo_deal :: "game \<Rightarrow> error + game" where
  "undo_deal g =
     (let stack = first_empty_reserve (piles g) 0 in
      if stack = 5 then Inr g
      else
        (case undeal_cols (rev [0..<10]) stack (deck g, piles g) of
           Inl e \<Rightarrow> Inl e
         | Inr (dk, ps) \<Rightarrow> Inr (g\<lparr>deck := dk, piles := ps\<rparr>)))"

text \<open>\<open>piles[s][piles[s].length - 1].facingUp = false\<close>: a \<open>TypeError\<close> on
  an empty or missing pile.\<close>

definition turn_down_top :: "game \<Rightarrow> nat \<Rightarrow> error + game" where
  "turn_down_top g s =
     (if length (piles g) \<le> s \<or> piles g ! s = [] then Inl TypeError
      else Inr (g\<lparr>deck := set_face (deck g) (last (piles g ! s)) False\<rparr>))"

definition turn_down_if :: "bool \<Rightarrow> game \<Rightarrow> nat \<Rightarrow> error + game" where
  "turn_down_if turned g s = (if turned then turn_down_top g s else Inr g)"

text \<open>The removal branch up to the recursive call: the 13 top cards of the
  foundation (\<open>splice(length - 13, 13)\<close>) back onto the column, 99 points.\<close>

definition undo_removal :: "game \<Rightarrow> nat \<Rightarrow> nat \<Rightarrow> bool \<Rightarrow> error + game" where
  "undo_removal g s t turned =
     (case turn_down_if turned g s of
        Inl e \<Rightarrow> Inl e
      | Inr g1 \<Rightarrow>
          (if length (piles g1) \<le> t \<or> length (piles g1) \<le> s then Inl TypeError
           else
             (let (hand, ps1) = js_splice (piles g1) t (int (length (piles g1 ! t)) - 13) 13
              in Inr (g1\<lparr>piles := concat_onto ps1 s hand, score := score g1 - 99\<rparr>))))"

text \<open>The transfer branch: the position of the card (\<open>getPileContainingCard\<close>,
  \<open>-1\<close> when absent) and \<open>splice(pos, length - pos)\<close> of the target.\<close>

definition undo_transfer :: "game \<Rightarrow> nat \<Rightarrow> nat \<Rightarrow> nat \<Rightarrow> bool \<Rightarrow> error + game" where
  "undo_transfer g c s t turned =
     (case turn_down_if turned g s of
        Inl e \<Rightarrow> Inl e
      | Inr g1 \<Rightarrow>
          (let pos = (case find_card (piles g1) c of None \<Rightarrow> -1 | Some (_, p) \<Rightarrow> int p) in
           if length (piles g1) \<le> t \<or> length (piles g1) \<le> s then Inl TypeError
           else
             (let (hand, ps1) = js_splice (piles g1) t pos (int (length (piles g1 ! t)) - pos)
              in Inr (g1\<lparr>piles := concat_onto ps1 s hand\<rparr>))))"

text \<open>The final \<open>ssObj.score--\<close> of every undo that found a record.\<close>

definition undo_cost :: "error + game \<Rightarrow> error + game" where
  "undo_cost r = (case r of Inl e \<Rightarrow> Inl e | Inr g \<Rightarrow> Inr (g\<lparr>score := score g - 1\<rparr>))"

text \<open>\<open>undo\<close>.  The recursive call after a removal alerts and returns when the
  log is empty; the outer call then goes on.  The removal branch does not
  touch the log, so the state of the recursive call has the popped log
  \<open>ms\<close>; the update \<open>moves := ms\<close> says so for the termination proof
  (lemma \<open>undo_removal_moves\<close>).\<close>

function undo :: "game \<Rightarrow> error + game" where
  "undo g =
     (case moves g of
        [] \<Rightarrow> Inl NoMoreMoves
      | m # ms \<Rightarrow>
          undo_cost
            (case m of
               DealMove _ \<Rightarrow> undo_deal (g\<lparr>moves := ms\<rparr>)
             | RemovalMove s t turned \<Rightarrow>
                 (case undo_removal (g\<lparr>moves := ms\<rparr>) s t turned of
                    Inl e \<Rightarrow> Inl e
                  | Inr g1 \<Rightarrow>
                      (case undo (g1\<lparr>moves := ms\<rparr>) of
                         Inl e \<Rightarrow> (if e = NoMoreMoves then Inr g1 else Inl e)
                       | Inr g2 \<Rightarrow> Inr g2))
             | TransferMove c s t turned \<Rightarrow> undo_transfer (g\<lparr>moves := ms\<rparr>) c s t turned))"
  by pat_completeness auto
termination
  by (relation "measure (\<lambda>g. length (moves g))") auto

subsection \<open>Lemmas\<close>

lemma undo_removal_moves: "undo_removal g s t turned = Inr g1 \<Longrightarrow> moves g1 = moves g"
  by (auto simp: undo_removal_def turn_down_if_def turn_down_top_def Let_def
           split: sum.splits if_splits prod.splits)

lemma turn_up_top_undo:
  assumes "p \<noteq> []" "last p < length dk"
  shows "(if snd (turn_up_top dk p) then set_face (fst (turn_up_top dk p)) (last p) False
          else fst (turn_up_top dk p)) = dk"
proof (cases "facingUp (dk ! last p)")
  case True
  then show ?thesis by (simp add: turn_up_top_def)
next
  case False
  then have E: "(dk ! last p)\<lparr>facingUp := False\<rparr> = dk ! last p" by simp
  have "set_face dk (last p) False = dk" unfolding set_face_def E by simp
  then show ?thesis using assms False by (simp add: turn_up_top_def set_face_def)
qed

lemma undo_transfer_step:
  "moves g = TransferMove c s t turned # ms \<Longrightarrow>
   undo g = undo_cost (undo_transfer (g\<lparr>moves := ms\<rparr>) c s t turned)"
  by (subst undo.simps) simp

lemma undo_transfer_inverse:
  assumes inv: "game_inv g" and s: "13 \<le> s" "s < 23" and t: "13 \<le> t" "t < 23"
    and pos: "pos < length (piles g ! s)"
  shows "undo (transfer g (piles g ! s ! pos) s pos t) = Inr (g\<lparr>playing := True, score := score g - 2\<rparr>)"
proof -
  let ?ps = "piles g" and ?p = "piles g ! s" and ?c = "piles g ! s ! pos"
  define hand where "hand = drop pos ?p"
  define ps2 where "ps2 = concat_onto (?ps[s := take pos ?p]) t hand"
  define tu where "tu = turn_up_top (deck g) (ps2 ! s)"
  define g' where "g' = transfer g ?c s pos t"
  have len: "length ?ps = 23" "length (deck g) = 104" using inv by (simp_all add: game_inv_def deck_ok_def)
  have G: "piles g' = ps2" "deck g' = fst tu" "score g' = score g - 1"
    "moves g' = TransferMove ?c s t (snd tu) # moves g"
    using transfer_piles [of s g t ?c pos] len s t
    by (simp_all add: g'_def ps2_def tu_def hand_def)
  have inv': "game_inv g'" using transfer_inv [OF inv s t pos] by (simp add: g'_def)
  have nth2: "ps2 ! j = (if j = t then (if t = s then take pos ?p else ?ps ! t) @ hand
                         else if j = s then take pos ?p else ?ps ! j)" if "j < 23" for j
    using that len s t by (simp add: ps2_def concat_onto_def nth_list_update)
  have len2: "length ps2 = 23" using len by (simp add: ps2_def concat_onto_def)
  text \<open>Turning the uncovered card back down restores the deck.\<close>
  define g1 where "g1 = g'\<lparr>moves := moves g, deck := deck g\<rparr>"
  have down: "turn_down_if (snd tu) (g'\<lparr>moves := moves g\<rparr>) s = Inr g1"
  proof (cases "snd tu")
    case True
    then have ne: "ps2 ! s \<noteq> []" by (simp add: tu_def turn_up_top_def split: if_splits)
    have "last (ps2 ! s) < length (deck g)"
      using game_inv_ids_all [OF inv', rule_format, of s] ne s G(1,2) len2 by (simp add: tu_def)
    then have "set_face (fst tu) (last (ps2 ! s)) False = deck g"
      using turn_up_top_undo [OF ne] True unfolding tu_def by (metis (full_types))
    then show ?thesis using True ne s len2 G(1,2)
      by (simp add: turn_down_if_def turn_down_top_def g1_def)
  next
    case False
    then have "fst tu = deck g" by (auto simp: tu_def turn_up_top_def)
    then show ?thesis using False G(2) by (simp add: turn_down_if_def g1_def)
  qed
  text \<open>The moved card is found at the bottom of the hand on the target.\<close>
  define L where "L = length (ps2 ! t) - length hand"
  have hne: "hand \<noteq> []" using pos by (simp add: hand_def)
  have tl: "ps2 ! t = take L (ps2 ! t) @ hand" "length hand \<le> length (ps2 ! t)"
    using nth2 [of t] t by (simp_all add: L_def)
  have "ps2 ! t ! L = ?c"
  proof -
    have "ps2 ! t ! L = hand ! 0" using tl hne by (metis append_take_drop_id nth_append_length_plus
          length_take min.absorb2 L_def diff_le_self add_0_right)
    then show ?thesis using pos by (simp add: hand_def)
  qed
  moreover have "L < length (ps2 ! t)"
  proof -
    have "0 < length hand" using hne by simp
    then show ?thesis using tl(2) unfolding L_def by linarith
  qed
  moreover have "distinct (concat ps2)" using game_inv_distinct [OF inv'] G(1) by simp
  ultimately have fc: "find_card ps2 ?c = Some (t, L)"
    using find_card_unique [of ps2 t L ?c] len2 t by simp
  have sp: "js_splice ps2 t (int L) (int (length (ps2 ! t)) - int L) = (hand, ps2[t := take L (ps2 ! t)])"
  proof -
    have lt: "length (take L (ps2 ! t)) = L" using tl(2) by (simp add: L_def)
    have "drop L (ps2 ! t) = hand" using arg_cong [OF tl(1), of "drop L"] lt by simp
    moreover have "int L \<le> int (length (ps2 ! t))" by (simp add: L_def)
    ultimately show ?thesis using js_splice_to_end [of "int L" ps2 t] by (simp add: splice_from_def)
  qed
  have fin: "concat_onto (ps2[t := take L (ps2 ! t)]) s hand = ?ps"
  proof (rule nth_equalityI)
    show "length (concat_onto (ps2[t := take L (ps2 ! t)]) s hand) = length ?ps"
      using len2 len by (simp add: concat_onto_def)
  next
    fix j assume "j < length (concat_onto (ps2[t := take L (ps2 ! t)]) s hand)"
    then have j: "j < 23" using len2 by (simp add: concat_onto_def)
    define X where "X = (if t = s then take pos ?p else ?ps ! t)"
    have "ps2 ! t = X @ hand" using nth2 [of t] t by (simp add: X_def)
    then have "take L (ps2 ! t) @ hand = X @ hand" using tl(1) by simp
    then have Lt: "take L (ps2 ! t) = X" by simp
    have ps: "?ps ! s = take pos ?p @ hand" by (simp add: hand_def)
    show "concat_onto (ps2[t := take L (ps2 ! t)]) s hand ! j = ?ps ! j"
    proof (cases "j = s")
      case True
      then show ?thesis using len2 s ps Lt nth2 [of s] by (simp add: concat_onto_def X_def)
    next
      case False
      then show ?thesis using len2 j Lt nth2 [of j] by (cases "j = t") (simp_all add: concat_onto_def nth_list_update X_def)
    qed
  qed
  have "undo_transfer (g'\<lparr>moves := moves g\<rparr>) ?c s t (snd tu) = Inr (g1\<lparr>piles := ?ps\<rparr>)"
    using down fc sp fin s t len2 G(1) by (simp add: undo_transfer_def g1_def)
  moreover have "g1\<lparr>piles := ?ps, score := score g1 - 1\<rparr> = g\<lparr>playing := True, score := score g - 2\<rparr>"
    unfolding g1_def g'_def by (simp add: transfer_def Let_def record_move_def move_card_id_def split: prod.split)
  ultimately show ?thesis using undo_transfer_step [OF G(4)] g'_def by (simp add: undo_cost_def)
qed

lemma undo_move_card_ok:
  assumes inv: "game_inv g" and ui: "ui_request g c tg"
    and mv: "move_card r g c tg = Inr (g', True)" and p: "playing g'"
    and fh: "full_homes (piles g') = full_homes (piles g)"
  shows "undo g' = Inr (g\<lparr>playing := True, score := score g - 2\<rparr>)"
proof -
  have ct: "column_target (piles g) tg" and cd: "can_drag g c" using ui by (simp_all add: ui_request_def)
  obtain t ctop where t: "get_pile_dropped_on (piles g) tg = Some (t, ctop)" "13 \<le> t" "t < 23"
    using ui_target [OF inv ct] by blast
  obtain s pos where s: "find_card (piles g) c = Some (s, pos)" "13 \<le> s" "s < 23"
    "pos < length (piles g ! s)" "c < length (deck g)"
    using ui_source [OF inv cd] by blast
  have c: "piles g ! s ! pos = c" using find_card_Some [OF s(1)] by simp
  let ?g2 = "transfer g c s pos t"
  have legal: "move_legal (deck g) (deck g ! c) ctop"
    using mv move_card_eq [OF inv t(1,3) s(1,4,5)] by (auto split: if_splits)
  then obtain g3 b where r0: "check_and_do_remove r ?g2 = Inr (g3, b)" and g3: "g' = g3"
    using mv move_card_eq [OF inv t(1,3) s(1,4,5)] by (auto split: sum.splits)
  have inv2: "game_inv ?g2" using transfer_inv [OF inv s(2,3) t(2,3) s(4)] .
  have "b" using check_and_do_remove_playing [OF inv2 r0] p g3 by simp
  then have r: "check_and_do_remove r ?g2 = Inr (g3, True)" using r0 by simp
  have len: "length (piles g) = 23" using inv by (simp add: game_inv_def)
  have "full_homes (piles ?g2) = full_homes (piles g)"
    by (rule full_homes_cong) (use s t len in \<open>simp add: transfer_piles concat_onto_def nth_list_update\<close>)
  then have "g3 = ?g2" using check_and_do_remove_same [OF inv2 r] fh g3 by simp
  then show ?thesis using g3 undo_transfer_inverse [OF inv s(2,3) t(2,3) s(4)] c by simp
qed

lemma undo_deal_moves: "undo_deal g = Inr g' \<Longrightarrow> moves g' = moves g"
  by (auto simp: undo_deal_def Let_def split: sum.splits prod.splits if_splits)

lemma undo_transfer_moves: "undo_transfer g c s t turned = Inr g' \<Longrightarrow> moves g' = moves g"
  by (auto simp: undo_transfer_def turn_down_if_def turn_down_top_def Let_def
           split: sum.splits prod.splits if_splits)

lemma undo_cost_Inr: "undo_cost r = Inr g' \<longleftrightarrow> (\<exists>g. r = Inr g \<and> g' = g\<lparr>score := score g - 1\<rparr>)"
  by (auto simp: undo_cost_def split: sum.splits)

lemma undo_drops_log:
  "undo g = Inr g' \<Longrightarrow> \<exists>k. 0 < k \<and> k \<le> length (moves g) \<and> moves g' = drop k (moves g)"
proof (induction g arbitrary: g' rule: undo.induct)
  case (1 g)
  show ?case
  proof (cases "moves g")
    case Nil
    then show ?thesis using "1.prems" by (simp add: undo.simps)
  next
    case (Cons m ms)
    then obtain g0 where r: "(case m of
               DealMove _ \<Rightarrow> undo_deal (g\<lparr>moves := ms\<rparr>)
             | RemovalMove s t turned \<Rightarrow>
                 (case undo_removal (g\<lparr>moves := ms\<rparr>) s t turned of
                    Inl e \<Rightarrow> Inl e
                  | Inr g1 \<Rightarrow>
                      (case undo (g1\<lparr>moves := ms\<rparr>) of
                         Inl e \<Rightarrow> (if e = NoMoreMoves then Inr g1 else Inl e)
                       | Inr g2 \<Rightarrow> Inr g2))
             | TransferMove c s t turned \<Rightarrow> undo_transfer (g\<lparr>moves := ms\<rparr>) c s t turned) = Inr g0"
      and g': "g' = g0\<lparr>score := score g0 - 1\<rparr>"
      using "1.prems" by (subst (asm) undo.simps) (auto simp: undo_cost_Inr)
    show ?thesis
    proof (cases m)
      case (DealMove x)
      then have "moves g0 = ms" using r undo_deal_moves by fastforce
      then show ?thesis using g' Cons by (intro exI [of _ 1]) simp
    next
      case (TransferMove c s t turned)
      then have "moves g0 = ms" using r undo_transfer_moves by fastforce
      then show ?thesis using g' Cons by (intro exI [of _ 1]) simp
    next
      case (RemovalMove s t turned)
      then obtain g1 where u1: "undo_removal (g\<lparr>moves := ms\<rparr>) s t turned = Inr g1"
        using r by (auto split: sum.splits)
      have m1: "moves g1 = ms" using undo_removal_moves [OF u1] by simp
      show ?thesis
      proof (cases "undo (g1\<lparr>moves := ms\<rparr>)")
        case (Inl e)
        then have "g0 = g1" using r RemovalMove u1 by (auto split: if_splits)
        then show ?thesis using g' Cons m1 by (intro exI [of _ 1]) simp
      next
        case (Inr g2)
        then have "g0 = g2" using r RemovalMove u1 by simp
        obtain k where k: "0 < k" "k \<le> length ms" "moves g2 = drop k ms"
          using "1.IH" [OF Cons RemovalMove u1 Inr] by auto
        then show ?thesis using g' Cons \<open>g0 = g2\<close> by (intro exI [of _ "Suc k"]) simp
      qed
    qed
  qed
qed

lemma undo_log:
  assumes "undo g = Inr g'" "log_ok g"
  shows "log_ok g'"
proof -
  obtain k where "moves g' = drop k (moves g)" using undo_drops_log [OF assms(1)] by blast
  then show ?thesis using assms(2) by (auto simp: log_ok_def list_all_iff dest: in_set_dropD)
qed

subsection \<open>Properties\<close>

text \<open>C9: undo is the inverse of a move that completed no run: from a state
  satisfying the invariant, after a request of the interface that moved
  cards and filled no foundation (so the game goes on: a winning move would
  have dealt the next game), undo gives back the piles, the faces, the log
  and the other fields, two points lower (one for the move, one for the
  undo), with the game under way.\<close>

theorem undo_move_card:
  assumes "game_inv g" "ui_request g c tg" "move_card r g c tg = Inr (g', True)" "playing g'"
    and "full_homes (piles g') = full_homes (piles g)"
  shows "undo g' = Inr (g\<lparr>playing := True, score := score g - 2\<rparr>)"
  using assms by (rule undo_move_card_ok)

text \<open>C15: every successful undo consumes the log: it pops one record, or
  a removal record and the records its recursive call undoes, so a row of
  successful undos is at most as long as the log and the recursion of
  \<open>undo\<close> ends.\<close>

theorem undo_consumes_log:
  assumes "undo g = Inr g'"
  shows "\<exists>k. 0 < k \<and> k \<le> length (moves g) \<and> moves g' = drop k (moves g)"
  using assms by (rule undo_drops_log)

end
