(* ===== verification/Storage.thy ===== *)
theory Storage
  imports Layout
begin

text \<open>
  The persistence layer of \<open>src/V2/ssjs/spider-solitaire.js\<close>: the eight
  \<open>localStorage\<close> items that \<open>saveGame\<close> writes, \<open>forgetGame\<close> and
  \<open>resetHighScores\<close> remove, and \<open>readGame\<close> reads back through
  \<open>readStorage\<close>.  An item is \<open>None\<close> when it is absent.  The items hold
  \<open>JSON.stringify\<close> of the values and are read with \<open>JSON.parse\<close>; the
  model stores the values themselves, so the two library calls are taken to
  be inverse on the values the engine writes.  Lemmas: what \<open>saveGame\<close>
  writes for a game under way, \<open>readGame\<close> reads back as \<open>save_game\<close>
  (the form the rest of the development uses); a reload resumes the saved
  game with its invariant; after \<open>forgetGame\<close> a reload deals a new game;
  \<open>resetHighScores\<close> clears the table and the statistics for good.
\<close>

subsection \<open>Definitions\<close>

text \<open>The items \<open>spidersolitaireMoves\<close>, \<open>...Piles\<close>, \<open>...Deck\<close>,
  \<open>...Score\<close>, \<open>...HighScores\<close>, \<open>...PlayerName\<close>, \<open>...Played\<close> and
  \<open>...Won\<close>.\<close>

record store =
  st_moves :: "move list option"
  st_piles :: "piles option"
  st_deck :: "card list option"
  st_score :: "int option"
  st_highScores :: "hs_entry list option"
  st_playerName :: "string option"
  st_played :: "nat option"
  st_won :: "nat option"

text \<open>\<open>readStorage(item, type)\<close>: \<open>JSON.parse(item)\<close>, or the default of the
  type (\<open>[]\<close>, \<open>0\<close>, \<open>''\<close>) when parsing throws, as it does on an absent
  item.\<close>

definition read_storage :: "'a option \<Rightarrow> 'a \<Rightarrow> 'a" where
  "read_storage item dflt = (case item of None \<Rightarrow> dflt | Some v \<Rightarrow> v)"

text \<open>\<open>saveGame\<close>, with \<open>usingstorage\<close>: the four items of the game only
  while it is being played, the high scores, the name and the statistics
  always.\<close>

definition save_store :: "bool \<Rightarrow> game \<Rightarrow> store \<Rightarrow> store" where
  "save_store usingstorage g st =
     (if \<not> usingstorage then st
      else
        (let st1 = (if playing g then
                      st\<lparr>st_moves := Some (moves g), st_piles := Some (piles g),
                         st_deck := Some (deck g), st_score := Some (score g)\<rparr>
                    else st)
         in st1\<lparr>st_highScores := Some (highScores g), st_playerName := Some (playerName g),
                st_played := Some (statPlayed g), st_won := Some (statWon g)\<rparr>))"

text \<open>The eight \<open>readStorage\<close> calls of \<open>readGame\<close>: what it assigns to
  the fields of the game.\<close>

definition stored :: "store \<Rightarrow> saved" where
  "stored st =
     \<lparr>sv_playerName = read_storage (st_playerName st) [],
      sv_highScores = read_storage (st_highScores st) [],
      sv_deck = read_storage (st_deck st) [], sv_piles = read_storage (st_piles st) [],
      sv_moves = read_storage (st_moves st) [], sv_score = read_storage (st_score st) 0,
      sv_played = read_storage (st_played st) 0, sv_won = read_storage (st_won st) 0\<rparr>"

text \<open>\<open>forgetGame\<close>: the four items of the game are removed.\<close>

definition forget_game :: "bool \<Rightarrow> store \<Rightarrow> store" where
  "forget_game usingstorage st =
     (if usingstorage then st\<lparr>st_moves := None, st_piles := None, st_deck := None, st_score := None\<rparr>
      else st)"

text \<open>The first three lines of \<open>resetHighScores\<close>: the table and the
  statistics are cleared.\<close>

definition reset_scores :: "game \<Rightarrow> game" where
  "reset_scores g = g\<lparr>highScores := [], statPlayed := 0, statWon := 0\<rparr>"

text \<open>\<open>resetHighScores\<close>: the table and the statistics are cleared, the
  stored table removed (without storage the call throws and is caught), and
  the game saved.\<close>

definition reset_high_scores :: "bool \<Rightarrow> game \<Rightarrow> store \<Rightarrow> game \<times> store" where
  "reset_high_scores usingstorage g st =
     (let g1 = reset_scores g;
          st1 = (if usingstorage then st\<lparr>st_highScores := None\<rparr> else st)
      in (g1, save_store usingstorage g1 st1))"

subsection \<open>Lemmas\<close>

lemma read_storage_Some [simp]: "read_storage (Some v) d = v"
  and read_storage_None [simp]: "read_storage None d = d"
  by (simp_all add: read_storage_def)

lemma stored_save_store:
  "playing g \<Longrightarrow> stored (save_store True g st) = save_game g"
  by (simp add: stored_def save_store_def save_game_def)

lemma stored_forget_game [simp]:
  "sv_piles (stored (forget_game True st)) = []" "sv_moves (stored (forget_game True st)) = []"
  "sv_highScores (stored (forget_game True st)) = read_storage (st_highScores st) []"
  by (simp_all add: stored_def forget_game_def)

lemma load_saved_game:
  assumes inv: "game_inv g" and p: "playing g"
  shows "\<exists>g'. new_game False (Some (save_game g)) r h = Inr g' \<and> game_inv g' \<and> playing g' \<and>
           piles g' = piles g \<and> deck g' = deck g \<and> moves g' = moves g \<and> score g' = score g \<and>
           highScores g' = highScores g \<and> statPlayed g' = statPlayed g \<and> statWon g' = statWon g"
proof -
  have len: "length (piles g) = 23" using inv by (simp add: game_inv_def)
  have "length (piles g ! 0) = 0 \<or> length (piles g ! 0) = 10"
    using inv by (auto simp: game_inv_def reserve_ok_def list_all_iff)
  then have pl: "length (piles g ! 0) \<noteq> 13" by auto
  let ?g' = "load_game (h\<lparr>playing := False, playerName := playerName g, highScores := highScores g,
                  deck := deck g, piles := piles g, moves := moves g, score := score g,
                  statPlayed := statPlayed g, statWon := statWon g\<rparr>)"
  have "new_game False (Some (save_game g)) r h = Inr ?g'"
    using len by (simp add: new_game_def prepare_cards_def read_game_def save_game_def)
  moreover have "game_inv ?g'" using inv by (simp add: game_inv_def load_game_def)
  ultimately show ?thesis using pl by (simp add: load_game_def)
qed

lemma new_deal_fields:
  "piles g = [] \<Longrightarrow> \<exists>g'. new_deal r g = Inr g' \<and> moves g' = moves g \<and> score g' = 500 \<and>
     playing g' = playing g \<and> highScores g' = highScores g"
  by (simp add: new_deal_def Let_def split: prod.split)

lemma reload_after_forget_ok:
  "\<exists>g'. new_game False (Some (stored (forget_game True st))) r h = Inr g' \<and> game_inv g' \<and>
        moves g' = [] \<and> score g' = 500 \<and> \<not> playing g' \<and>
        highScores g' = read_storage (st_highScores st) []"
proof -
  let ?h2 = "h\<lparr>playing := False, playerName := read_storage (st_playerName st) [],
                highScores := read_storage (st_highScores st) [], deck := [], piles := [], moves := [],
                score := 0, statPlayed := read_storage (st_played st) 0,
                statWon := read_storage (st_won st) 0\<rparr>"
  let ?h0 = "h\<lparr>moves := [], piles := [], deck := [], score := 500, playing := False\<rparr>"
  have eq: "new_game False (Some (stored (forget_game True st))) r h = new_deal r ?h2"
    by (simp add: new_game_def prepare_cards_def read_game_def stored_def forget_game_def)
  obtain g' where g': "new_deal r ?h2 = Inr g'" "moves g' = []" "score g' = 500" "\<not> playing g'"
    "highScores g' = read_storage (st_highScores st) []"
    using new_deal_fields [of ?h2 r] by auto
  obtain g0 where g0: "new_game True None r h = Inr g0" "game_inv g0"
    using new_game_ok [of None r h] by blast
  have "new_deal r ?h0 = Inr g0" using g0(1) by (simp add: new_game_def prepare_cards_def)
  then have "deck g' = deck g0 \<and> piles g' = piles g0"
    using new_deal_fresh [of ?h2 ?h0 r] g'(1) by auto
  then have "game_inv g'" using g0(2) by (simp add: game_inv_def)
  then show ?thesis using eq g' by simp
qed

subsection \<open>Properties\<close>

text \<open>C14: what \<open>saveGame\<close> writes for a game under way, the \<open>readStorage\<close>
  calls of \<open>readGame\<close> read back as exactly the saved fields
  (\<open>save_game\<close>), whatever the store held before.\<close>

theorem save_read_roundtrip:
  assumes "playing g"
  shows "stored (save_store True g st) = save_game g"
  using assms by (rule stored_save_store)

text \<open>C13: reloading the page (\<open>newGame(false)\<close>) after \<open>saveGame\<close> of a game
  under way that satisfies the invariant resumes that game: same piles,
  faces, log and score, the invariant holds and the game is under way.\<close>

theorem reload_resumes_game:
  assumes "game_inv g" "playing g"
  shows "\<exists>g'. new_game False (Some (stored (save_store True g st))) r h = Inr g' \<and> game_inv g' \<and>
           playing g' \<and> piles g' = piles g \<and> deck g' = deck g \<and> moves g' = moves g \<and>
           score g' = score g"
  using load_saved_game [OF assms, of r h] stored_save_store [OF assms(2), of st] by auto

text \<open>C24: after \<open>forgetGame\<close> a reload finds no game (the piles item is
  gone, \<open>readStorage\<close> gives \<open>[]\<close>) and deals a new one satisfying the
  invariant, keeping the stored high scores.\<close>

theorem reload_after_forget:
  "\<exists>g'. new_game False (Some (stored (forget_game True st))) r h = Inr g' \<and> game_inv g' \<and>
        moves g' = [] \<and> score g' = 500 \<and> \<not> playing g' \<and>
        highScores g' = read_storage (st_highScores st) []"
  by (rule reload_after_forget_ok)

text \<open>C26: \<open>resetHighScores\<close> clears the table and the statistics in the
  game and in the store (the removed item is written again, empty, by the
  \<open>saveGame\<close> that follows); the game items are written only while a game
  is under way.\<close>

theorem reset_high_scores_persist:
  "highScores (fst (reset_high_scores True g st)) = [] \<and> statPlayed (fst (reset_high_scores True g st)) = 0 \<and>
   statWon (fst (reset_high_scores True g st)) = 0 \<and>
   sv_highScores (stored (snd (reset_high_scores True g st))) = [] \<and>
   sv_played (stored (snd (reset_high_scores True g st))) = 0 \<and>
   sv_won (stored (snd (reset_high_scores True g st))) = 0 \<and>
   sv_piles (stored (snd (reset_high_scores True g st))) =
     (if playing g then piles g else read_storage (st_piles st) [])"
  by (simp add: reset_high_scores_def reset_scores_def save_store_def stored_def Let_def)

end
