(* ===== verification/Session.thy ===== *)
theory Session
  imports Undo Storage
begin

text \<open>
  The event layer, \<open>initHandlers\<close> and the buttons of \<open>showMenu\<close> in
  \<open>src/V2/ssjs/spider-solitaire.js\<close>: the Deal button (and a click on a
  reserve pile) calls \<open>deal\<close>, a drop of a draggable card on a drop target
  calls \<open>moveCard\<close>, the Undo button calls \<open>undo\<close>, the New button calls
  \<open>checkForNewGame\<close>; the menu's buttons set the player's name and the
  level and may deal a new game, and the confirmed reset of the high scores
  is an event of its own.  Alerts and bare returns of the engine leave the
  state as it is; anything else would be an exception.  A session is a
  sequence of events, handled in order (the host is single-threaded).
  Lemmas: every session without undo from a state satisfying the invariant
  runs without an exception and keeps the invariant, each event costs at
  most one point or restarts the score at 500, every event keeps the log
  well typed, and the close button changes the level as the code says.
\<close>

subsection \<open>Definitions\<close>

text \<open>The events the handlers react to.  A drop names the dragged card and
  the target; \<open>NewClick\<close> carries the player's answer to the confirmation
  dialog.  Each event that may deal a new game carries the values
  \<open>Math.random()\<close> returns while it does (a move or a deal that wins the
  game starts the next one from the won dialog).\<close>

datatype event =
    DealClick draws | DropOn nat drop_target draws | UndoClick | NewClick bool draws
  | MenuSaveName string nat draws | MenuReset string nat draws | ResetConfirmed
  | MenuClose string nat draws | RestoreClose nat draws

text \<open>The menu dialog of \<open>showMenu\<close>: its buttons read the name field
  (\<open>#ssplayer\<close>) and the level selector (\<open>#sslevel\<close>; its string
  value is coerced to a number by every comparison that reads it).  The name
  is written into every high-score entry without a player (the loop over
  \<open>highScores\<close>).\<close>

definition fill_names :: "string \<Rightarrow> hs_entry list \<Rightarrow> hs_entry list" where
  "fill_names name hs = map (\<lambda>e. if player e = [] then e\<lparr>player := name\<rparr> else e) hs"

text \<open>The test every button ends with: a new level chosen while no game is
  under way deals a new game at once (\<open>newGame(true)\<close>).\<close>

definition level_change :: "draws \<Rightarrow> game \<Rightarrow> error + game" where
  "level_change r g =
     (if \<not> playing g \<and> howManySuits g \<noteq> howManySuitsNext g then new_game True None r g else Inr g)"

text \<open>The \<open>save name\<close> button (\<open>saveGame\<close> is persistence).\<close>

definition menu_save_name :: "string \<Rightarrow> nat \<Rightarrow> draws \<Rightarrow> game \<Rightarrow> error + game" where
  "menu_save_name name lvl r g =
     level_change r (g\<lparr>playerName := name, highScores := fill_names name (highScores g),
                       howManySuitsNext := lvl\<rparr>)"

text \<open>The \<open>reset scores\<close> button: it only opens the confirmation (the
  reset itself is the later \<open>ResetConfirmed\<close> event), then takes the name
  and the level.\<close>

definition menu_reset :: "string \<Rightarrow> nat \<Rightarrow> draws \<Rightarrow> game \<Rightarrow> error + game" where
  "menu_reset name lvl r g = level_change r (g\<lparr>playerName := name, howManySuitsNext := lvl\<rparr>)"

text \<open>Closing the save/restore dialog without restoring takes the level.\<close>

definition restore_close :: "nat \<Rightarrow> draws \<Rightarrow> game \<Rightarrow> error + game" where
  "restore_close lvl r g = level_change r (g\<lparr>howManySuitsNext := lvl\<rparr>)"

text \<open>The \<open>close\<close> button: the name is taken only if none was set.\<close>

definition menu_close :: "string \<Rightarrow> nat \<Rightarrow> draws \<Rightarrow> game \<Rightarrow> error + game" where
  "menu_close name lvl r g =
     (let g1 = (if playerName g = [] then g\<lparr>playerName := name, highScores := fill_names name (highScores g)\<rparr>
                else g)
      in level_change r (g1\<lparr>howManySuitsNext := lvl\<rparr>))"

text \<open>One event.  The drag starts only on a card with the \<open>canDrag\<close> class
  and the drop fires only on a \<open>canDrop\<close> target (a column base or a card
  of a column): \<open>ui_request\<close>.  The alerts of \<open>deal\<close> and \<open>undo\<close> and the
  bare return of \<open>moveCard\<close> keep the state.\<close>

definition handle :: "game \<Rightarrow> event \<Rightarrow> error + game" where
  "handle g ev =
     (case ev of
        DealClick r \<Rightarrow>
          (case deal r g of
             Inl e \<Rightarrow> (if e = EmptySpaces \<or> e = NoCardsLeft then Inr g else Inl e)
           | Inr g' \<Rightarrow> Inr g')
      | DropOn c tg r \<Rightarrow>
          (if ui_request g c tg then
             (case move_card r g c tg of
                Inl e \<Rightarrow> (if e = TargetNotFound then Inr g else Inl e)
              | Inr (g', _) \<Rightarrow> Inr g')
           else Inr g)
      | UndoClick \<Rightarrow>
          (case undo g of
             Inl e \<Rightarrow> (if e = NoMoreMoves then Inr g else Inl e)
           | Inr g' \<Rightarrow> Inr g')
      | NewClick confirmed r \<Rightarrow> check_for_new_game confirmed r g
      | MenuSaveName name lvl r \<Rightarrow> menu_save_name name lvl r g
      | MenuReset name lvl r \<Rightarrow> menu_reset name lvl r g
      | ResetConfirmed \<Rightarrow> Inr (reset_scores g)
      | MenuClose name lvl r \<Rightarrow> menu_close name lvl r g
      | RestoreClose lvl r \<Rightarrow> restore_close lvl r g)"

text \<open>A session: the events in order; an exception ends it.\<close>

fun run :: "game \<Rightarrow> event list \<Rightarrow> error + game" where
  "run g [] = Inr g"
| "run g (ev # evs) = (case handle g ev of Inl e \<Rightarrow> Inl e | Inr g' \<Rightarrow> run g' evs)"

subsection \<open>Lemmas\<close>

lemma check_for_new_game_ok:
  "\<exists>g'. check_for_new_game confirmed r g = Inr g' \<and>
        (g' = g \<or> game_inv g' \<and> score g' = 500 \<and> moves g' = [])"
  using new_game_ok [of None r g] new_game_ok [of None r "g\<lparr>statPlayed := statPlayed g + 1\<rparr>"]
  by (auto simp: check_for_new_game_def)

lemma level_change_ok:
  assumes "game_inv g"
  shows "\<exists>g'. level_change r g = Inr g' \<and> game_inv g' \<and>
           (score g' = score g \<and> moves g' = moves g \<or> score g' = 500 \<and> moves g' = [])"
  using new_game_ok [of None r g] assms by (auto simp: level_change_def)

lemma menu_buttons_ok:
  assumes "game_inv g"
  shows "\<exists>g'. menu_save_name name lvl r g = Inr g' \<and> game_inv g' \<and>
           (score g' = score g \<and> moves g' = moves g \<or> score g' = 500 \<and> moves g' = [])"
    and "\<exists>g'. menu_reset name lvl r g = Inr g' \<and> game_inv g' \<and>
           (score g' = score g \<and> moves g' = moves g \<or> score g' = 500 \<and> moves g' = [])"
    and "\<exists>g'. menu_close name lvl r g = Inr g' \<and> game_inv g' \<and>
           (score g' = score g \<and> moves g' = moves g \<or> score g' = 500 \<and> moves g' = [])"
    and "\<exists>g'. restore_close lvl r g = Inr g' \<and> game_inv g' \<and>
           (score g' = score g \<and> moves g' = moves g \<or> score g' = 500 \<and> moves g' = [])"
proof -
  show "\<exists>g'. restore_close lvl r g = Inr g' \<and> game_inv g' \<and>
           (score g' = score g \<and> moves g' = moves g \<or> score g' = 500 \<and> moves g' = [])"
    using level_change_ok [of "g\<lparr>howManySuitsNext := lvl\<rparr>" r] assms by (simp add: restore_close_def)
  show "\<exists>g'. menu_save_name name lvl r g = Inr g' \<and> game_inv g' \<and>
           (score g' = score g \<and> moves g' = moves g \<or> score g' = 500 \<and> moves g' = [])"
    using level_change_ok [of "g\<lparr>playerName := name, highScores := fill_names name (highScores g),
                       howManySuitsNext := lvl\<rparr>" r] assms by (simp add: menu_save_name_def)
  show "\<exists>g'. menu_reset name lvl r g = Inr g' \<and> game_inv g' \<and>
           (score g' = score g \<and> moves g' = moves g \<or> score g' = 500 \<and> moves g' = [])"
    using level_change_ok [of "g\<lparr>playerName := name, howManySuitsNext := lvl\<rparr>" r] assms
    by (simp add: menu_reset_def)
  show "\<exists>g'. menu_close name lvl r g = Inr g' \<and> game_inv g' \<and>
           (score g' = score g \<and> moves g' = moves g \<or> score g' = 500 \<and> moves g' = [])"
  proof (cases "playerName g = []")
    case True
    then show ?thesis using level_change_ok [of "g\<lparr>playerName := name, highScores := fill_names name (highScores g),
                       howManySuitsNext := lvl\<rparr>" r] assms by (simp add: menu_close_def)
  next
    case False
    then show ?thesis using level_change_ok [of "g\<lparr>howManySuitsNext := lvl\<rparr>" r] assms
      by (simp add: menu_close_def)
  qed
qed

lemma deal_handled:
  assumes inv: "game_inv g"
  shows "\<exists>g'. (case deal r g of
             Inl e \<Rightarrow> (if e = EmptySpaces \<or> e = NoCardsLeft then Inr g else Inl e)
           | Inr g' \<Rightarrow> Inr g') = Inr g' \<and> game_inv g' \<and>
        score g' = score g + 100 * int (full_homes (piles g') - full_homes (piles g))"
proof (cases "\<forall>i<10. piles g ! (13 + i) \<noteq> []")
  case False
  then have "deal r g = Inl EmptySpaces" using deal_refusals_ok [OF inv, of r] by blast
  then show ?thesis using inv by simp
next
  case cols: True
  show ?thesis
  proof (cases "\<forall>i<5. piles g ! i = []")
    case True
    then have "deal r g = Inl NoCardsLeft" using deal_refusals_ok [OF inv, of r] cols by blast
    then show ?thesis using inv by simp
  next
    case False
    then obtain g' where "deal r g = Inr g'" "game_inv g'"
      "score g' = score g + 100 * int (full_homes (piles g') - full_homes (piles g))"
      using deal_ok [OF inv cols, of r] by blast
    then show ?thesis by simp
  qed
qed

lemma transfer_full_homes:
  assumes "13 \<le> s" "s < 23" "13 \<le> t" "t < 23" "length (piles g) = 23"
  shows "full_homes (piles (transfer g c s pos t)) = full_homes (piles g)"
proof (rule full_homes_cong)
  fix i :: nat assume "5 \<le> i" "i < 13"
  then show "piles (transfer g c s pos t) ! i = piles g ! i"
    using assms transfer_piles(1) [of s g t c pos] by (simp add: concat_onto_def)
qed

lemma move_card_score:
  assumes inv: "game_inv g" and ui: "ui_request g c tg" and mv: "move_card r g c tg = Inr (g', b)"
  shows "g' = g \<or> score g' = score g - 1 + 100 * int (full_homes (piles g') - full_homes (piles g)) \<or>
         score g' = 500 \<and> moves g' = [] \<and> \<not> playing g'"
proof -
  have ct: "column_target (piles g) tg" and cd: "can_drag g c" using ui by (simp_all add: ui_request_def)
  obtain t ctop where t: "get_pile_dropped_on (piles g) tg = Some (t, ctop)" "13 \<le> t" "t < 23"
    using ui_target [OF inv ct] by blast
  obtain s pos where s: "find_card (piles g) c = Some (s, pos)" "13 \<le> s" "s < 23"
    "pos < length (piles g ! s)" "c < length (deck g)"
    using ui_source [OF inv cd] by blast
  let ?g2 = "transfer g c s pos t"
  have len: "length (piles g) = 23" using inv by (simp add: game_inv_def)
  have inv2: "game_inv ?g2" using transfer_inv [OF inv s(2,3) t(2,3) s(4)] .
  obtain g3 b3 where r: "check_and_do_remove r ?g2 = Inr (g3, b3)"
    "b3 \<longrightarrow> score g3 = score ?g2 + 100 * int (full_homes (piles g3) - full_homes (piles ?g2))"
    "\<not> b3 \<longrightarrow> score g3 = 500 \<and> moves g3 = [] \<and> \<not> playing g3"
    using check_and_do_remove_inv_ok [OF inv2, of r] by blast
  have "score ?g2 = score g - 1" using transfer_piles(3) [of s g t c pos] len s t by simp
  moreover have "full_homes (piles ?g2) = full_homes (piles g)"
    using transfer_full_homes [OF s(2,3) t(2,3) len] .
  ultimately have "score g3 = score g - 1 + 100 * int (full_homes (piles g3) - full_homes (piles g)) \<or>
                   score g3 = 500 \<and> moves g3 = [] \<and> \<not> playing g3"
    using r(2,3) by (cases b3) simp_all
  then show ?thesis using mv move_card_eq [OF inv t(1,3) s(1,4,5)] r(1)
    by (auto split: if_splits)
qed

lemma score_step_bound: "score g - 1 + 100 * int n \<ge> score g - 1" "score g + 100 * int n \<ge> score g - 1"
  by simp_all

lemma handle_ok:
  assumes inv: "game_inv g" and ev: "ev \<noteq> UndoClick"
  shows "\<exists>g'. handle g ev = Inr g' \<and> (game_inv g' \<and> score g - 1 \<le> score g' \<or> game_inv g' \<and> score g' = 500)"
proof (cases ev)
  case (DealClick r)
  then show ?thesis using deal_handled [OF inv, of r] score_step_bound(2) by (auto simp: handle_def)
next
  case (DropOn c tg r)
  show ?thesis
  proof (cases "ui_request g c tg")
    case True
    obtain g' b where "move_card r g c tg = Inr (g', b)" "game_inv g'"
      using move_card_ok [OF inv True] by blast
    moreover have "score g - 1 \<le> score g' \<or> score g' = 500"
      using move_card_score [OF inv True calculation(1)] score_step_bound(1) by auto
    ultimately show ?thesis using DropOn True by (auto simp: handle_def)
  next
    case False
    then show ?thesis using DropOn inv by (simp add: handle_def)
  qed
next
  case UndoClick
  then show ?thesis using ev by simp
next
  case (NewClick confirmed r)
  then show ?thesis using check_for_new_game_ok [of confirmed r g] inv by (auto simp: handle_def)
next
  case (MenuSaveName name lvl r)
  then show ?thesis using menu_buttons_ok(1) [OF inv, of name lvl r] by (auto simp: handle_def)
next
  case (MenuReset name lvl r)
  then show ?thesis using menu_buttons_ok(2) [OF inv, of name lvl r] by (auto simp: handle_def)
next
  case ResetConfirmed
  then show ?thesis using inv by (simp add: handle_def reset_scores_def)
next
  case (MenuClose name lvl r)
  then show ?thesis using menu_buttons_ok(3) [OF inv, of name lvl r] by (auto simp: handle_def)
next
  case (RestoreClose lvl r)
  then show ?thesis using menu_buttons_ok(4) [OF inv, of lvl r] by (auto simp: handle_def)
qed

lemma run_ok:
  assumes "game_inv g" "UndoClick \<notin> set evs"
  shows "\<exists>g'. run g evs = Inr g' \<and> game_inv g' \<and> min (score g) 500 - int (length evs) \<le> score g'"
  using assms
proof (induction evs arbitrary: g)
  case Nil
  then show ?case by simp
next
  case (Cons ev evs)
  obtain g1 where h: "handle g ev = Inr g1" "game_inv g1"
    and sc: "score g - 1 \<le> score g1 \<or> score g1 = 500"
  proof -
    have "ev \<noteq> UndoClick" using Cons.prems(2) by auto
    then show ?thesis using handle_ok [OF Cons.prems(1)] that by blast
  qed
  obtain g' where r: "run g1 evs = Inr g'" "game_inv g'" "min (score g1) 500 - int (length evs) \<le> score g'"
    using Cons.IH [OF h(2)] Cons.prems(2) by auto
  have "min (score g) 500 - 1 \<le> min (score g1) 500" using sc by auto
  then have "min (score g) 500 - int (length (ev # evs)) \<le> score g'"
    using r(3) by (simp only: length_Cons of_nat_Suc)
  then show ?case using h r(1,2) by simp
qed

lemma handle_log:
  assumes inv: "game_inv g" and ok: "log_ok g" and h: "handle g ev = Inr g'"
  shows "log_ok g'"
proof (cases ev)
  case (DealClick r)
  then show ?thesis using h ok deal_log [OF inv _ ok, of r]
    by (auto simp: handle_def split: sum.splits if_splits)
next
  case (DropOn c tg r)
  then show ?thesis using h ok move_card_log [OF inv _ _ ok, of c tg r]
    by (auto simp: handle_def split: sum.splits if_splits)
next
  case UndoClick
  then show ?thesis using h ok undo_log [of g] by (auto simp: handle_def split: sum.splits if_splits)
next
  case (NewClick confirmed r)
  have "moves g' = [] \<or> g' = g"
    using h NewClick new_game_ok [of None r g] new_game_ok [of None r "g\<lparr>statPlayed := statPlayed g + 1\<rparr>"]
    by (auto simp: handle_def check_for_new_game_def split: if_splits)
  then show ?thesis using ok by (auto simp: log_ok_def)
next
  case (MenuSaveName name lvl r)
  then show ?thesis using h ok menu_buttons_ok(1) [OF inv, of name lvl r] by (auto simp: handle_def log_ok_def)
next
  case (MenuReset name lvl r)
  then show ?thesis using h ok menu_buttons_ok(2) [OF inv, of name lvl r] by (auto simp: handle_def log_ok_def)
next
  case ResetConfirmed
  then show ?thesis using h ok by (auto simp: handle_def reset_scores_def log_ok_def)
next
  case (MenuClose name lvl r)
  then show ?thesis using h ok menu_buttons_ok(3) [OF inv, of name lvl r] by (auto simp: handle_def log_ok_def)
next
  case (RestoreClose lvl r)
  then show ?thesis using h ok menu_buttons_ok(4) [OF inv, of lvl r] by (auto simp: handle_def log_ok_def)
qed

subsection \<open>Properties\<close>

text \<open>C10: a session of Deal clicks, drops of draggable cards on columns,
  New-game clicks and menu buttons, from a state satisfying the invariant, never raises an
  exception, and every state it passes through satisfies the invariant.\<close>

theorem session_inv:
  assumes "game_inv g" "UndoClick \<notin> set evs"
  shows "\<exists>g'. run g evs = Inr g' \<and> game_inv g'"
  using run_ok [OF assms] by blast

text \<open>C11: Each event changes the score exactly as the code charges it.
  A click on Deal adds 100 points per run the removal engine completes and
  nothing else (the deal record is free; a refusal changes nothing).  A drop
  either changes nothing, or costs exactly one point and gains 100 per
  completed run, or wins, and then the won dialog's new game starts at 500
  with an empty log.  The New button and the menu buttons keep the score or
  start a new game at 500 with an empty log.\<close>

theorem handle_score:
  assumes "game_inv g" "ev \<noteq> UndoClick" "handle g ev = Inr g'"
  shows "(case ev of
            DealClick _ \<Rightarrow> score g' = score g + 100 * int (full_homes (piles g') - full_homes (piles g))
          | DropOn _ _ _ \<Rightarrow>
              g' = g \<or> score g' = score g - 1 + 100 * int (full_homes (piles g') - full_homes (piles g)) \<or>
              score g' = 500 \<and> moves g' = [] \<and> \<not> playing g'
          | _ \<Rightarrow> score g' = score g \<or> score g' = 500 \<and> moves g' = [])"
proof (cases ev)
  case (DealClick r)
  then show ?thesis using deal_handled [OF assms(1), of r] assms(3) by (auto simp: handle_def)
next
  case (DropOn c tg r)
  show ?thesis
  proof (cases "ui_request g c tg")
    case True
    obtain g2 b where m: "move_card r g c tg = Inr (g2, b)"
      using move_card_ok [OF assms(1) True] by blast
    then have "g' = g2" using assms(3) DropOn True by (simp add: handle_def)
    then show ?thesis using move_card_score [OF assms(1) True m] DropOn by simp
  next
    case False
    then show ?thesis using assms(3) DropOn by (simp add: handle_def)
  qed
next
  case UndoClick
  then show ?thesis using assms(2) by simp
next
  case (NewClick confirmed r)
  then show ?thesis using check_for_new_game_ok [of confirmed r g] assms(3) by (auto simp: handle_def)
next
  case (MenuSaveName name lvl r)
  then show ?thesis using menu_buttons_ok(1) [OF assms(1), of name lvl r] assms(3) by (auto simp: handle_def)
next
  case (MenuReset name lvl r)
  then show ?thesis using menu_buttons_ok(2) [OF assms(1), of name lvl r] assms(3) by (auto simp: handle_def)
next
  case ResetConfirmed
  then show ?thesis using assms(3) by (auto simp: handle_def reset_scores_def)
next
  case (MenuClose name lvl r)
  then show ?thesis using menu_buttons_ok(3) [OF assms(1), of name lvl r] assms(3) by (auto simp: handle_def)
next
  case (RestoreClose lvl r)
  then show ?thesis using menu_buttons_ok(4) [OF assms(1), of lvl r] assms(3) by (auto simp: handle_def)
qed

text \<open>C12: every event keeps the log well typed: from a state satisfying
  the invariant whose records name piles in range, whatever event is
  handled (an undo included), every record of the new log names a reserve
  pile, a column and a foundation, or a card and two columns, so the pile
  indices \<open>undo\<close> reads from it exist.\<close>

theorem handle_keeps_log_typed:
  assumes "game_inv g" "log_ok g" "handle g ev = Inr g'"
  shows "log_ok g'"
  using assms by (rule handle_log)

text \<open>C25: The \<open>close\<close> button of the menu always succeeds: it takes the typed
  name only when the player has none yet, records the chosen level, and deals a new game at
  that level exactly when no game is under way and the level differs from the current one;
  otherwise the layout, the log, the score and the level in play are untouched.\<close>

theorem menu_close_level:
  "\<exists>g'. menu_close name lvl r g = Inr g' \<and>
        playerName g' = (if playerName g = [] then name else playerName g) \<and> howManySuitsNext g' = lvl \<and>
        (if \<not> playing g \<and> howManySuits g \<noteq> lvl
         then game_inv g' \<and> piles g' = initial_layout \<and> howManySuits g' = lvl \<and> moves g' = [] \<and>
              score g' = 500
         else piles g' = piles g \<and> moves g' = moves g \<and> score g' = score g \<and>
              howManySuits g' = howManySuits g)"
proof -
  define g1 where "g1 = (if playerName g = [] then g\<lparr>playerName := name, highScores := fill_names name (highScores g)\<rparr>
                         else g)\<lparr>howManySuitsNext := lvl\<rparr>"
  have m: "menu_close name lvl r g = level_change r g1" by (simp add: menu_close_def g1_def Let_def)
  have f: "playerName g1 = (if playerName g = [] then name else playerName g)" "howManySuitsNext g1 = lvl"
    "playing g1 = playing g" "howManySuits g1 = howManySuits g" "piles g1 = piles g" "moves g1 = moves g"
    "score g1 = score g"
    by (simp_all add: g1_def)
  show ?thesis
  proof (cases "\<not> playing g \<and> howManySuits g \<noteq> lvl")
    case True
    then show ?thesis using new_game_ok [of None r g1] m f by (auto simp: level_change_def)
  next
    case False
    then show ?thesis using m f by (auto simp: level_change_def)
  qed
qed

end
