(* ===== verification/Spec2Isabelle.thy ===== *)
theory Spec2Isabelle
  imports Session
begin

text \<open>
  \<^bold>\<open>A verified model of the Spider Solitaire engine of
  \<^verbatim>\<open>src/V2/ssjs/spider-solitaire.js\<close>.\<close>

  \<^bold>\<open>The program.\<close>  One object, \<open>SpiderSolitaire\<close>, holds the whole game:
  \<open>deck\<close> (the 104 card objects, indexed by id), \<open>piles\<close> (23 arrays of
  cards: reserve piles 0 to 4, foundations 5 to 12, columns 13 to 22),
  \<open>moves\<close> (the undo log), \<open>score\<close>, \<open>playing\<close>, the level in play and the
  level chosen for the next game (\<open>howManySuits\<close>, \<open>howManySuitsNext\<close>),
  the player's name, the high-score table and the statistics.  The DOM
  handlers call five engine functions: \<open>newGame\<close> and \<open>prepareCards\<close>
  build and deal a shuffled two-pack deck (or reload the saved game);
  \<open>deal\<close> deals a reserve pile onto the columns; \<open>moveCard\<close> moves a card
  and the cards above it; \<open>undo\<close> reverses the last record.  \<open>deal\<close> and
  \<open>moveCard\<close> push a record (\<open>recordMove\<close>) and call \<open>checkAndDoRemove\<close>,
  which moves every completed king-to-ace run to a foundation and pushes a
  record of its own; on the eighth run it counts the win, calls
  \<open>highScoreCheck\<close>, and \<open>showMenu(score)\<close>, which deals the next game at
  once.  \<open>undo\<close> of a removal record calls itself to undo the record below
  it as well.  \<open>saveGame\<close>, \<open>readGame\<close>, \<open>forgetGame\<close> and
  \<open>resetHighScores\<close> keep the game and the scores in \<open>localStorage\<close>; the
  menu dialog sets the name and the level and offers a save string that
  the restore button lays out again.

  \<^bold>\<open>The theories\<close> (each imports the ones it calls).
  \<^item> \<open>Prelude\<close>: piles as lists of card ids; the JavaScript array
    primitives the engine uses (\<open>push\<close>, \<open>pop\<close>, \<open>splice\<close> with its
    negative-start rule, \<open>concat\<close>); the error type (\<open>TypeError\<close> for an
    exception on \<open>undefined\<close>, one constructor per alert); the multiset
    lemmas behind every conservation proof (\<open>pile_simps\<close>).
  \<^item> \<open>Cards\<close>: the card record, \<open>choose_suits\<close>, \<open>create_cards\<close>, the
    8000-step \<open>shuffle\<close> (the values of \<open>Math.random()\<close> are the input
    record \<open>draws\<close>), \<open>assign_ids\<close>, \<open>count_suits\<close> (\<open>prepareCards\<close>,
    \<open>countSuits\<close>).
  \<^item> \<open>Game\<close>: the \<open>move\<close> records (a datatype on the \<open>cardId\<close> tag), the
    \<open>game\<close> record, \<open>record_move\<close> (\<open>recordMove\<close>), \<open>find_card\<close>
    (\<open>getPileContainingCard\<close>), \<open>get_pile_dropped_on\<close>
    (\<open>getPileDroppedOn\<close>), \<open>turn_up_top\<close>, \<open>can_drag\<close>
    (\<open>setDraggableCards\<close>), the invariant \<open>game_inv\<close> and the typing of
    the log \<open>log_ok\<close>.  Card objects are shared between the deck and the
    piles in the source; the model makes the deck a store indexed by id and
    the piles lists of ids, so turning a card updates the store.  The log
    is kept newest first.
  \<^item> \<open>HighScores\<close>: \<open>high_score_check\<close> and its loop \<open>hs_scan\<close>.
  \<^item> \<open>Layout\<close>: the constructor (\<open>initial_game\<close>), both branches of
    \<open>prepareCards\<close> (\<open>new_deal\<close>, \<open>load_game\<close> on what \<open>read_game\<close>
    returns), \<open>new_game\<close>, \<open>check_for_new_game\<close>, the save string and the
    restore button (\<open>save_encode\<close>, \<open>restore_decode\<close>, \<open>restore_game\<close>).
  \<^item> \<open>Removal\<close>: \<open>check_and_do_remove\<close> with \<open>spare_home\<close>, the column
    test \<open>full_suit_on_top\<close> and its walk \<open>run_walk\<close>, \<open>remove_run\<close>,
    \<open>scan_columns\<close>, \<open>game_won\<close> and \<open>won_menu\<close> (the new game
    \<open>showMenu\<close> deals after a win).
  \<^item> \<open>Move\<close>: \<open>move_card\<close> (\<open>moveCard\<close>), its legality test and
    \<open>transfer\<close>; \<open>ui_request\<close> names the drops the interface can make.
  \<^item> \<open>Deal\<close>: \<open>deal\<close> with its two searches and \<open>deal_cols\<close>;
    \<open>deal_clicks\<close> repeats the Deal button.
  \<^item> \<open>Undo\<close>: \<open>undo\<close> with \<open>undo_deal\<close>, \<open>undo_removal\<close>,
    \<open>undo_transfer\<close>; the recursive call is kept.
  \<^item> \<open>Storage\<close>: \<open>localStorage\<close> as a record of eight optional items
    (\<open>store\<close>), \<open>save_store\<close> (\<open>saveGame\<close>), \<open>read_storage\<close> and
    \<open>stored\<close> (\<open>readStorage\<close> as \<open>readGame\<close> calls it),
    \<open>forget_game\<close>, \<open>reset_high_scores\<close>.
  \<^item> \<open>Session\<close>: the events of \<open>initHandlers\<close> and of the menu dialog,
    the step function \<open>handle\<close> and sessions \<open>run\<close>.
  Every loop of the source is a \<^theory_text>\<open>fun\<close> or a \<^theory_text>\<open>function\<close> with a
  measure (the loop counter's distance to its bound, or the length of the
  log for \<open>undo\<close>); no fuel is needed.  Every exception the source can
  throw on a malformed state is the value \<open>Inl TypeError\<close>; every alert is
  an \<open>Inl\<close> of its own.  Randomness is an argument: every operation that
  may deal a new game (a new game, a move or deal that wins, a menu button)
  takes the \<open>draws\<close> it would consume.

  \<^bold>\<open>The results.\<close>  The properties are listed in \<open>PROJECT.json\<close> with
  their claim ids; each is stated right after a text block naming the id.
  The invariant (card conservation, reserves of 0 or 10 cards filled from
  the bottom, foundations of 0 or 13 filled in order, face-up column tops,
  a well-formed deck) holds for a new game and a restored deck and is kept
  by \<open>checkAndDoRemove\<close>, by every request of the interface to
  \<open>moveCard\<close>, by \<open>deal\<close> and by every session of events without undo,
  which also never raise an exception.  Further: the effect of
  \<open>moveCard\<close> on the piles, the deck, the score and the log, with its
  rank test; \<open>deal\<close>'s refusals and its
  effect; that the stock runs out within six Deal clicks; that a deal cannot
  win; that undo inverts a move and consumes the log; that every event keeps
  the log well typed; the exact score change of every event; the save/read
  round trip
  of \<open>localStorage\<close> and the reload of a saved or forgotten game; the
  menu's level change; the run test, the high-score table and the new pack.
  The findings (a won game replaced at once by a new deal, \<open>playing\<close>
  always set on load, drops on column bases accepted, undo costs, the
  restore button without storage) are stated as theorems where they are
  behaviour of the code.

  \<^bold>\<open>Not modelled.\<close>  Rendering and the DOM (\<open>refreshTable\<close>,
  \<open>respaceCards\<close>, templates, the score table of the menu, \<open>compact\<close>,
  \<open>hide\<close>, \<open>loadImages\<close>); the drag-and-drop wiring except which engine
  call it makes (a drop is an event naming the card and the target, and
  \<open>ui_request\<close> abstracts the \<open>canDrag\<close>/\<open>canDrop\<close> classes to drops on
  columns); drops on cards in foundations, which keep \<open>canDrop\<close>; the
  ctrl-z handler of \<open>keyPress\<close>; the asynchronous \<open>confirm\<close> dialog,
  whose answer is an argument (\<open>NewClick\<close>) or a later event
  (\<open>ResetConfirmed\<close>); exceptions of \<open>localStorage\<close>, which the source
  catches; \<open>JSON.stringify\<close> and \<open>JSON.parse\<close>, taken as inverse on the
  values written (the restore string's parser is an argument); the string
  value of the level selector, which every comparison coerces to the
  number the model uses.
\<close>

subsection \<open>A concrete game\<close>

text \<open>A fixed outcome of the random draws: two-suit choices low, and shuffle
  step \<open>k\<close> drawing the pair \<open>(k, 7 k)\<close>.  The game it deals is the
  concrete state the witnesses below apply the properties to.\<close>

abbreviation sample_draws :: draws where
  "sample_draws \<equiv> \<lparr>red_low = True, black_low = True, one_suit = 0, swap_draw = (\<lambda>k. (k, 7 * k))\<rparr>"

abbreviation sample_store :: store where
  "sample_store \<equiv> \<lparr>st_moves = None, st_piles = None, st_deck = None, st_score = None,
                     st_highScores = None, st_playerName = None, st_played = None, st_won = None\<rparr>"

abbreviation sample_events :: "event list" where
  "sample_events \<equiv> [DealClick sample_draws, DropOn 94 (Base 0) sample_draws, DealClick sample_draws, NewClick True sample_draws]"

subsection \<open>Witnesses\<close>

lemma sample_game:
  "\<exists>g. new_game True None sample_draws (initial_game 0) = Inr g \<and> game_inv g \<and>
       piles g = initial_layout"
proof -
  obtain g where g: "new_game True None sample_draws (initial_game 0) = Inr g"
    "piles g = initial_layout" "length (deck g) = 104"
    "\<forall>i<104. card_id (deck g ! i) = i \<and> wf_card (deck g ! i) \<and> facingUp (deck g ! i) = (94 \<le> i)"
    using new_game_layout by blast
  have "game_inv g" using g(2-4) by (intro layout_inv) simp_all
  with g show ?thesis by blast
qed

theorem check_and_do_remove_inv_witness:
  "\<exists>g. new_game True None sample_draws (initial_game 0) = Inr g \<and> game_inv g \<and>
       (\<exists>g1 sp. scan_columns 13 (spare_home (piles g)) g = Inr (g1, sp) \<and> game_inv g1 \<and>
           score g1 = score g + 100 * int (full_homes (piles g1) - full_homes (piles g)) \<and>
           (if full_homes (piles g) < 8 \<and> full_homes (piles g1) = 8
            then (\<exists>g'. check_and_do_remove sample_draws g = Inr (g', False) \<and> game_inv g' \<and>
                       score g' = 500 \<and> moves g' = [] \<and> \<not> playing g' \<and> statWon g' = statWon g1 + 1 \<and>
                       highScores g' = highScores (game_won g1))
            else check_and_do_remove sample_draws g = Inr (g1, True)))"
proof -
  obtain g where g: "new_game True None sample_draws (initial_game 0) = Inr g" "game_inv g"
    using sample_game by blast
  show ?thesis using g check_and_do_remove_inv [OF g(2), of sample_draws] by blast
qed

theorem move_card_inv_witness:
  "\<exists>g. new_game True None sample_draws (initial_game 0) = Inr g \<and> game_inv g \<and>
       ui_request g 94 (Base 0) \<and>
       (\<exists>g' b. move_card sample_draws g 94 (Base 0) = Inr (g', b) \<and> game_inv g' \<and> (\<not> b \<longrightarrow> g' = g))"
proof -
  obtain g where g: "new_game True None sample_draws (initial_game 0) = Inr g" "game_inv g"
    "piles g = initial_layout"
    using sample_game by blast
  have ui: "ui_request g 94 (Base 0)"
    using initial_layout_draggable [OF g(3)] by (simp add: ui_request_def column_target_def)
  show ?thesis using g ui move_card_inv [OF g(2) ui] by blast
qed


theorem base_drop_accepted_witness:
  "\<exists>g. new_game True None sample_draws (initial_game 0) = Inr g \<and> game_inv g \<and>
       can_drag g 94 \<and> (0::nat) < 10 \<and> (\<exists>g'. move_card sample_draws g 94 (Base 0) = Inr (g', True))"
proof -
  obtain g where g: "new_game True None sample_draws (initial_game 0) = Inr g" "game_inv g"
    "piles g = initial_layout"
    using sample_game by blast
  have cd: "can_drag g 94" using initial_layout_draggable [OF g(3)] .
  show ?thesis using g cd base_drop_accepted [OF g(2) cd, of 0] by auto
qed

lemma initial_layout_deal:
  "\<forall>i<10. initial_layout ! (13 + i) \<noteq> []" "initial_layout ! 0 \<noteq> []"
  "find_full_reserve initial_layout 6 = int 4"
proof -
  show "\<forall>i<10. initial_layout ! (13 + i) \<noteq> []" using initial_layout_tops by simp
  have "map length initial_layout ! 0 = 10" using initial_layout_shape(1) by simp
  then show "initial_layout ! 0 \<noteq> []" using initial_layout_facts(1) by auto
  show "find_full_reserve initial_layout 6 = int 4" by code_simp
qed

theorem deal_inv_witness:
  "\<exists>g. new_game True None sample_draws (initial_game 0) = Inr g \<and> game_inv g \<and>
       (\<forall>i<10. piles g ! (13 + i) \<noteq> []) \<and> (\<exists>i<5. piles g ! i \<noteq> []) \<and>
       (\<exists>g'. deal sample_draws g = Inr g' \<and> game_inv g' \<and>
           score g' = score g + 100 * int (full_homes (piles g') - full_homes (piles g)))"
proof -
  obtain g where g: "new_game True None sample_draws (initial_game 0) = Inr g" "game_inv g"
    "piles g = initial_layout"
    using sample_game by blast
  have c: "\<forall>i<10. piles g ! (13 + i) \<noteq> []" using initial_layout_deal(1) g(3) by simp
  have r: "\<exists>i<5. piles g ! i \<noteq> []" using initial_layout_deal(2) g(3) by (intro exI [of _ 0]) simp
  show ?thesis using g c r deal_inv [OF g(2) c r] by blast
qed

theorem deal_refusals_witness:
  "\<exists>g. new_game True None sample_draws (initial_game 0) = Inr g \<and> game_inv g \<and>
       (deal sample_draws g = Inl EmptySpaces \<longleftrightarrow> (\<exists>i<10. piles g ! (13 + i) = [])) \<and>
       (deal sample_draws g = Inl NoCardsLeft \<longleftrightarrow> (\<forall>i<10. piles g ! (13 + i) \<noteq> []) \<and> (\<forall>i<5. piles g ! i = []))"
proof -
  obtain g where g: "new_game True None sample_draws (initial_game 0) = Inr g" "game_inv g"
    using sample_game by blast
  show ?thesis using g deal_refusals [OF g(2)] by blast
qed

theorem deal_cols_effect_witness:
  "\<exists>g. new_game True None sample_draws (initial_game 0) = Inr g \<and> game_inv g \<and>
       find_full_reserve (piles g) 6 = int 4 \<and>
       (\<exists>dk ps. deal_cols [0..<10] 4 (deck g, piles g) = Inr (dk, ps) \<and> ps ! 4 = [] \<and>
           (\<forall>i<13. i \<noteq> 4 \<longrightarrow> ps ! i = piles g ! i) \<and>
           (\<forall>c<10. ps ! (13 + c) = piles g ! (13 + c) @ [piles g ! 4 ! (9 - c)] \<and>
                   facingUp (dk ! (piles g ! 4 ! (9 - c)))))"
proof -
  obtain g where g: "new_game True None sample_draws (initial_game 0) = Inr g" "game_inv g"
    "piles g = initial_layout"
    using sample_game by blast
  have f: "find_full_reserve (piles g) 6 = int 4" using initial_layout_deal(3) g(3) by simp
  show ?thesis using g f deal_cols_effect [OF g(2) f] by blast
qed

lemma sample_move_short:
  "list_all (\<lambda>p. length p < 13)
     (concat_onto (initial_layout[17 := take 4 (initial_layout ! 17)]) 13 (drop 4 (initial_layout ! 17)))"
  by code_simp

lemma sample_move:
  "\<exists>g g'. new_game True None sample_draws (initial_game 0) = Inr g \<and> game_inv g \<and>
       ui_request g 94 (Base 0) \<and> move_card sample_draws g 94 (Base 0) = Inr (g', True) \<and>
       playing g' \<and> full_homes (piles g') = full_homes (piles g)"
proof -
  obtain g where g: "new_game True None sample_draws (initial_game 0) = Inr g" "game_inv g"
    "piles g = initial_layout"
    using sample_game by blast
  have ui: "ui_request g 94 (Base 0)"
    using initial_layout_draggable [OF g(3)] by (simp add: ui_request_def column_target_def)
  have t: "get_pile_dropped_on (piles g) (Base 0) = Some (13, None)"
    by (simp add: get_pile_dropped_on_def)
  have "find_card initial_layout 94 = Some (17, 4)" by code_simp
  then have s: "find_card (piles g) 94 = Some (17, 4)" using g(3) by simp
  have len: "length (piles g) = 23" "length (deck g) = 104"
    using g(2) by (simp_all add: game_inv_def deck_ok_def)
  have sl: "4 < length (piles g ! 17)" using find_card_Some [OF s] by simp
  let ?g2 = "transfer g 94 17 4 13"
  have P: "piles ?g2 = concat_onto (initial_layout[17 := take 4 (initial_layout ! 17)]) 13 (drop 4 (initial_layout ! 17))"
    using transfer_piles(1) [of 17 g 13 94 4] len g(3) by simp
  have inv2: "game_inv ?g2" using transfer_inv [OF g(2) _ _ _ _ sl] by simp
  have short: "\<forall>i. 13 \<le> i \<and> i < 23 \<longrightarrow> length (piles ?g2 ! i) < 13"
    using sample_move_short P len g(3) by (auto simp: list_all_length concat_onto_def)
  have r: "check_and_do_remove sample_draws ?g2 = Inr (?g2, True)"
    using check_and_do_remove_short [OF _ short] inv2 by (simp add: game_inv_def)
  have mv: "move_card sample_draws g 94 (Base 0) = Inr (?g2, True)"
    using move_card_eq [OF g(2) t _ s sl] len r by (simp add: move_legal_def)
  have fh: "full_homes (piles ?g2) = full_homes (piles g)"
    by (rule full_homes_cong) (use len in \<open>simp add: transfer_piles concat_onto_def nth_list_update\<close>)
  have p: "playing ?g2" by (simp add: transfer_def Let_def split: prod.split)
  show ?thesis using g ui mv p fh by blast
qed

theorem undo_move_card_witness:
  "\<exists>g g'. new_game True None sample_draws (initial_game 0) = Inr g \<and> game_inv g \<and>
       ui_request g 94 (Base 0) \<and> move_card sample_draws g 94 (Base 0) = Inr (g', True) \<and>
       playing g' \<and> full_homes (piles g') = full_homes (piles g) \<and>
       undo g' = Inr (g\<lparr>playing := True, score := score g - 2\<rparr>)"
proof -
  obtain g g' where g: "new_game True None sample_draws (initial_game 0) = Inr g" "game_inv g"
    "ui_request g 94 (Base 0)" "move_card sample_draws g 94 (Base 0) = Inr (g', True)"
    "playing g'" "full_homes (piles g') = full_homes (piles g)"
    using sample_move by blast
  show ?thesis using g undo_move_card [OF g(2-6)] by blast
qed

theorem undo_consumes_log_witness:
  "\<exists>g g'. new_game True None sample_draws (initial_game 0) = Inr g \<and>
       move_card sample_draws g 94 (Base 0) = Inr (g', True) \<and> undo g' = Inr (g\<lparr>playing := True, score := score g - 2\<rparr>) \<and>
       (\<exists>k. 0 < k \<and> k \<le> length (moves g') \<and> moves (g\<lparr>playing := True, score := score g - 2\<rparr>) = drop k (moves g'))"
proof -
  obtain g g' where g: "new_game True None sample_draws (initial_game 0) = Inr g" "game_inv g"
    "ui_request g 94 (Base 0)" "move_card sample_draws g 94 (Base 0) = Inr (g', True)"
    "playing g'" "full_homes (piles g') = full_homes (piles g)"
    using sample_move by blast
  have u: "undo g' = Inr (g\<lparr>playing := True, score := score g - 2\<rparr>)"
    using undo_move_card_ok [OF g(2-6)] .
  show ?thesis using g(1,4) u undo_consumes_log [OF u] by blast
qed

theorem session_inv_witness:
  "\<exists>g. new_game True None sample_draws (initial_game 0) = Inr g \<and> game_inv g \<and>
       UndoClick \<notin> set sample_events \<and> (\<exists>g'. run g sample_events = Inr g' \<and> game_inv g')"
proof -
  obtain g where g: "new_game True None sample_draws (initial_game 0) = Inr g" "game_inv g"
    using sample_game by blast
  have u: "UndoClick \<notin> set sample_events" by simp
  show ?thesis using g u session_inv [OF g(2) u] by blast
qed

theorem handle_score_witness:
  "\<exists>g g'. new_game True None sample_draws (initial_game 0) = Inr g \<and> game_inv g \<and>
       DropOn 94 (Base 0) sample_draws \<noteq> UndoClick \<and> handle g (DropOn 94 (Base 0) sample_draws) = Inr g' \<and>
       (g' = g \<or> score g' = score g - 1 + 100 * int (full_homes (piles g') - full_homes (piles g)) \<or>
        score g' = 500 \<and> moves g' = [] \<and> \<not> playing g')"
proof -
  obtain g where g: "new_game True None sample_draws (initial_game 0) = Inr g" "game_inv g"
    using sample_game by blast
  have u: "DropOn 94 (Base 0) sample_draws \<noteq> UndoClick" by simp
  obtain g' where h: "handle g (DropOn 94 (Base 0) sample_draws) = Inr g'"
    using handle_ok [OF g(2) u] by blast
  have "g' = g \<or> score g' = score g - 1 + 100 * int (full_homes (piles g') - full_homes (piles g)) \<or>
        score g' = 500 \<and> moves g' = [] \<and> \<not> playing g'"
    using handle_score [OF g(2) u h] by simp
  then show ?thesis using g u h by blast
qed

theorem no_win_with_full_columns_witness:
  "\<exists>g. new_game True None sample_draws (initial_game 0) = Inr g \<and> game_inv g \<and>
       (\<forall>i<10. piles g ! (13 + i) \<noteq> []) \<and>
       (\<exists>g'. check_and_do_remove sample_draws g = Inr (g', True) \<and> game_inv g' \<and>
           score g' = score g + 100 * int (full_homes (piles g') - full_homes (piles g)))"
proof -
  obtain g where g: "new_game True None sample_draws (initial_game 0) = Inr g" "game_inv g"
    "piles g = initial_layout"
    using sample_game by blast
  have c: "\<forall>i<10. piles g ! (13 + i) \<noteq> []" using initial_layout_deal(1) g(3) by simp
  show ?thesis using g c no_win_with_full_columns [OF g(2) c] by blast
qed

theorem save_read_roundtrip_witness:
  "playing ((initial_game 0)\<lparr>playing := True\<rparr>) \<and>
   stored (save_store True ((initial_game 0)\<lparr>playing := True\<rparr>) sample_store) =
     save_game ((initial_game 0)\<lparr>playing := True\<rparr>)"
  using save_read_roundtrip [of "(initial_game 0)\<lparr>playing := True\<rparr>" sample_store] by simp

theorem reload_resumes_game_witness:
  "\<exists>g. new_game True None sample_draws (initial_game 0) = Inr g \<and>
       game_inv (g\<lparr>playing := True\<rparr>) \<and> playing (g\<lparr>playing := True\<rparr>) \<and>
       (\<exists>g'. new_game False (Some (stored (save_store True (g\<lparr>playing := True\<rparr>) sample_store))) sample_draws
               (initial_game 0) = Inr g' \<and> game_inv g' \<and>
           playing g' \<and> piles g' = piles g \<and> deck g' = deck g \<and> moves g' = moves g \<and>
           score g' = score g)"
proof -
  obtain g where g: "new_game True None sample_draws (initial_game 0) = Inr g" "game_inv g"
    using sample_game by blast
  have i: "game_inv (g\<lparr>playing := True\<rparr>)" using g(2) by (simp add: game_inv_def)
  have p: "playing (g\<lparr>playing := True\<rparr>)" by simp
  show ?thesis
    using g(1) i p reload_resumes_game [OF i p, of sample_store sample_draws "initial_game 0"] by auto
qed

theorem deal_stock_runs_out_witness:
  "\<exists>g. new_game True None sample_draws (initial_game 0) = Inr g \<and> game_inv g \<and>
       (deal_clicks sample_draws 6 g = Inl EmptySpaces \<or> deal_clicks sample_draws 6 g = Inl NoCardsLeft)"
proof -
  obtain g where g: "new_game True None sample_draws (initial_game 0) = Inr g" "game_inv g"
    using sample_game by blast
  show ?thesis using g deal_stock_runs_out [OF g(2), of sample_draws] by blast
qed

theorem handle_keeps_log_typed_witness:
  "\<exists>g g'. new_game True None sample_draws (initial_game 0) = Inr g \<and> game_inv g \<and> log_ok g \<and>
       handle g (DealClick sample_draws) = Inr g' \<and> log_ok g'"
proof -
  obtain g where g: "new_game True None sample_draws (initial_game 0) = Inr g" "game_inv g"
    using sample_game by blast
  have ok: "log_ok g" using g(1) new_game_ok [of None sample_draws "initial_game 0"]
    by (auto simp: log_ok_def)
  obtain g' where h: "handle g (DealClick sample_draws) = Inr g'"
    using handle_ok [OF g(2), of "DealClick sample_draws"] by auto
  show ?thesis using g ok h handle_keeps_log_typed [OF g(2) ok h] by blast
qed

end
